theory Spec2Isabelle
  imports Complex_Main "HOL-Library.Word" "HOL-Library.Log_Nat"
begin

unbundle bit_operations_syntax

section \<open>IEEE-754 binary32 values, as numpy's float32 computes with them\<close>

text \<open>
  The program \<^verbatim>\<open>bin2img_fp32.py\<close> reads raw bytes, views them as float32 values
  (\<^verbatim>\<open>np.frombuffer(..., dtype=np.float32)\<close>), and does three float32 operations on
  every sample: a subtraction, a division and a multiplication by \<^verbatim>\<open>255.0\<close>.  The
  model below is the binary32 format in sign-magnitude form: a value is NaN, an infinity
  with its sign, or a finite number with its sign bit (\<open>True\<close> is negative) and its
  magnitude as an exact rational, so that both zeros exist.  Every operation computes the
  exact rational result and rounds it to the nearest binary32 number, ties to even, with
  gradual underflow and overflow to infinity, as the hardware does.
\<close>

type_synonym byte = "8 word"

datatype f32 = NaN | Inf bool | Fin bool rat

fun valof :: "f32 \<Rightarrow> rat" where
  "valof (Fin s m) = (if s then - m else m)"
| "valof _ = 0"

fun isnan :: "f32 \<Rightarrow> bool" where
  "isnan NaN = True"
| "isnan _ = False"

fun isfinite :: "f32 \<Rightarrow> bool" where
  "isfinite (Fin _ _) = True"
| "isfinite _ = False"

text \<open>Round a rational to the nearest integer, a tie going to the even neighbour.\<close>

definition rhe :: "rat \<Rightarrow> int" where
  "rhe x = (let f = \<lfloor>x\<rfloor>; d = x - of_int f in
     if d < 1 / 2 then f else if 1 / 2 < d then f + 1 else if even f then f else f + 1)"

text \<open>
  A finite binary32 magnitude is a multiple \<open>k * 2^-149\<close> of the smallest subnormal,
  where \<open>k\<close> has at most 24 significant bits.  \<open>rmag q\<close> rounds the magnitude
  \<open>q\<close>, given in units of \<open>2^-149\<close>, to the nearest such \<open>k\<close> with the exponent
  unbounded above: below \<open>2^24\<close> the grid is the integers (subnormals and the first
  binade), above it \<open>s\<close> low bits are dropped.
\<close>

definition rmag :: "rat \<Rightarrow> int" where
  "rmag q = (let s = nat (bitlen \<lfloor>q\<rfloor> - 24) in rhe (q / 2 ^ s) * 2 ^ s)"

text \<open>
  The same rounding on magnitudes themselves, and the rounding of a signed magnitude to
  binary32: a rounded magnitude of \<open>2^128\<close> or more overflows to the infinity of the
  same sign.
\<close>

definition umag :: "rat \<Rightarrow> rat" where
  "umag m = of_int (rmag (m * 2 ^ 149)) / 2 ^ 149"

definition round32 :: "bool \<Rightarrow> rat \<Rightarrow> f32" where
  "round32 s m = (if 2 ^ 128 \<le> umag m then Inf s else Fin s (umag m))"

text \<open>The value of a 32-bit pattern: sign bit 31, exponent bits 30..23, fraction bits 22..0.\<close>

definition f32_of_bits :: "32 word \<Rightarrow> f32" where
  "f32_of_bits w = (let s = bit w 31; e = unat (drop_bit 23 w AND 255); m = unat (w AND 0x7FFFFF) in
     if e = 255 then (if m = 0 then Inf s else NaN)
     else if e = 0 then Fin s (of_nat m / 2 ^ 149)
     else Fin s (of_nat ((2 ^ 23 + m) * 2 ^ (e - 1)) / 2 ^ 149))"

text \<open>Subtraction \<open>x - y\<close>.  An exact zero difference is \<open>+0\<close>, except \<open>(-0) - (+0) = -0\<close>.\<close>

fun fsub :: "f32 \<Rightarrow> f32 \<Rightarrow> f32" where
  "fsub NaN _ = NaN"
| "fsub _ NaN = NaN"
| "fsub (Inf s) (Inf t) = (if s = t then NaN else Inf s)"
| "fsub (Inf s) (Fin _ _) = Inf s"
| "fsub (Fin _ _) (Inf t) = Inf (\<not> t)"
| "fsub (Fin s a) (Fin t b) =
     (let r = valof (Fin s a) - valof (Fin t b) in
      if r = 0 then Fin (s \<and> \<not> t) 0 else round32 (r < 0) \<bar>r\<bar>)"

text \<open>Division \<open>x / y\<close>: \<open>0/0\<close> and \<open>inf/inf\<close> are NaN, a nonzero number over zero is an infinity.\<close>

fun fdiv :: "f32 \<Rightarrow> f32 \<Rightarrow> f32" where
  "fdiv NaN _ = NaN"
| "fdiv _ NaN = NaN"
| "fdiv (Inf s) (Inf t) = NaN"
| "fdiv (Inf s) (Fin t _) = Inf (s \<noteq> t)"
| "fdiv (Fin s _) (Inf t) = Fin (s \<noteq> t) 0"
| "fdiv (Fin s a) (Fin t b) =
     (if b = 0 then (if a = 0 then NaN else Inf (s \<noteq> t)) else round32 (s \<noteq> t) (a / b))"

fun fmul :: "f32 \<Rightarrow> f32 \<Rightarrow> f32" where
  "fmul NaN _ = NaN"
| "fmul _ NaN = NaN"
| "fmul (Inf s) (Inf t) = Inf (s \<noteq> t)"
| "fmul (Inf s) (Fin t b) = (if b = 0 then NaN else Inf (s \<noteq> t))"
| "fmul (Fin s a) (Inf t) = (if a = 0 then NaN else Inf (s \<noteq> t))"
| "fmul (Fin s a) (Fin t b) = round32 (s \<noteq> t) (a * b)"

text \<open>
  The comparisons \<open>x \<le> y\<close>, \<open>x < y\<close> and \<open>x == y\<close>: false as soon as one side is
  NaN; the two zeros are equal.
\<close>

fun fle :: "f32 \<Rightarrow> f32 \<Rightarrow> bool" where
  "fle NaN _ = False"
| "fle _ NaN = False"
| "fle (Inf s) (Inf t) = (s \<or> \<not> t)"
| "fle (Inf s) (Fin _ _) = s"
| "fle (Fin _ _) (Inf t) = (\<not> t)"
| "fle (Fin s a) (Fin t b) = (valof (Fin s a) \<le> valof (Fin t b))"

fun flt :: "f32 \<Rightarrow> f32 \<Rightarrow> bool" where
  "flt NaN _ = False"
| "flt _ NaN = False"
| "flt (Inf s) (Inf t) = (s \<and> \<not> t)"
| "flt (Inf s) (Fin _ _) = s"
| "flt (Fin _ _) (Inf t) = (\<not> t)"
| "flt (Fin s a) (Fin t b) = (valof (Fin s a) < valof (Fin t b))"

definition feq :: "f32 \<Rightarrow> f32 \<Rightarrow> bool" where
  "feq x y = (fle x y \<and> fle y x)"

section \<open>The numpy and PIL operations the program calls\<close>

datatype exn = FileNotFoundError | OSError | ValueError

text \<open>
  \<^verbatim>\<open>np.frombuffer(input_bin, dtype=np.float32)\<close>: a buffer whose size is not a multiple of
  the 4-byte element size raises ValueError; otherwise every 4 bytes, least significant
  byte first (the byte order of the x86 and ARM hosts the tool runs on), are one float32.
\<close>

definition le32 :: "byte \<Rightarrow> byte \<Rightarrow> byte \<Rightarrow> byte \<Rightarrow> 32 word" where
  "le32 b0 b1 b2 b3 =
     ucast b0 OR push_bit 8 (ucast b1) OR push_bit 16 (ucast b2) OR push_bit 24 (ucast b3)"

fun decode_floats :: "byte list \<Rightarrow> f32 list" where
  "decode_floats (b0 # b1 # b2 # b3 # bs) = f32_of_bits (le32 b0 b1 b2 b3) # decode_floats bs"
| "decode_floats _ = []"

definition frombuffer :: "byte list \<Rightarrow> exn + f32 list" where
  "frombuffer buf = (if length buf mod 4 \<noteq> 0 then Inl ValueError else Inr (decode_floats buf))"

text \<open>
  \<^verbatim>\<open>input_array.reshape(3, 128, 128)\<close>: ValueError unless there are exactly
  \<open>3 * 128 * 128\<close> elements; otherwise the elements in C order, the last axis varying
  fastest.  An array of shape (3, 128, 128) is a list of 3 planes of 128 rows of 128 values.
\<close>

definition split_axis :: "nat \<Rightarrow> nat \<Rightarrow> 'a list \<Rightarrow> 'a list list" where
  "split_axis k n xs = map (\<lambda>i. take n (drop (i * n) xs)) [0..<k]"

definition reshape_3_128_128 :: "'a list \<Rightarrow> exn + 'a list list list" where
  "reshape_3_128_128 xs =
     (if length xs \<noteq> 3 * 128 * 128 then Inl ValueError
      else Inr (map (split_axis 128 128) (split_axis 3 (128 * 128) xs)))"

text \<open>
  \<^verbatim>\<open>min()\<close> and \<^verbatim>\<open>max()\<close> reduce over all elements of the array, whatever its
  shape, with numpy's \<^verbatim>\<open>minimum\<close> and \<^verbatim>\<open>maximum\<close>.  They keep a NaN once they meet
  one, and of two equal operands (the two zeros) they return the second, as the x86
  instructions \<^verbatim>\<open>minps\<close> and \<^verbatim>\<open>maxps\<close> do.  A reduction over an empty array raises
  ValueError.
\<close>

definition fminimum :: "f32 \<Rightarrow> f32 \<Rightarrow> f32" where
  "fminimum a b = (if flt a b \<or> isnan a then a else b)"

definition fmaximum :: "f32 \<Rightarrow> f32 \<Rightarrow> f32" where
  "fmaximum a b = (if flt b a \<or> isnan a then a else b)"

definition reduce :: "(f32 \<Rightarrow> f32 \<Rightarrow> f32) \<Rightarrow> f32 list list list \<Rightarrow> exn + f32" where
  "reduce f a = (case concat (concat a) of [] \<Rightarrow> Inl ValueError | x # xs \<Rightarrow> Inr (foldl f x xs))"

definition amin :: "f32 list list list \<Rightarrow> exn + f32" where
  "amin = reduce fminimum"

definition amax :: "f32 list list list \<Rightarrow> exn + f32" where
  "amax = reduce fmaximum"

text \<open>An elementwise operation on a three-axis array.\<close>

definition map3 :: "('a \<Rightarrow> 'b) \<Rightarrow> 'a list list list \<Rightarrow> 'b list list list" where
  "map3 f = map (map (map f))"

text \<open>
  Line 34 of the program:
  \<^verbatim>\<open>(input_array - input_array.min()) / (input_array.max() - input_array.min()) * 255.0\<close>.
  The array operands are float32 and the scalars are float32 or a Python float, so each
  of the three elementwise operations is a float32 operation.
\<close>

definition normalize :: "f32 list list list \<Rightarrow> exn + f32 list list list" where
  "normalize a =
     (case amin a of
        Inl e \<Rightarrow> Inl e
      | Inr mn \<Rightarrow>
          (let num = map3 (\<lambda>v. fsub v mn) a in
           (case amax a of
              Inl e \<Rightarrow> Inl e
            | Inr mx \<Rightarrow>
                (let den = fsub mx mn;
                     quo = map3 (\<lambda>v. fdiv v den) num
                 in Inr (map3 (\<lambda>v. fmul v (Fin False 255)) quo)))))"

text \<open>
  \<^verbatim>\<open>astype(np.uint8)\<close> is the C conversion of a float to an unsigned 8-bit integer: the
  value is truncated toward zero, and the result is that integer when it lies in
  \<open>0..255\<close>.  For NaN, the infinities and numbers whose truncation is outside that
  range, C leaves the conversion undefined and numpy returns what the host's conversion
  instruction leaves; that byte is the parameter \<open>ic\<close> of the model.
\<close>

fun truncation :: "f32 \<Rightarrow> int option" where
  "truncation (Fin s m) = Some (if s then - \<lfloor>m\<rfloor> else \<lfloor>m\<rfloor>)"
| "truncation _ = None"

definition astype_uint8 :: "(f32 \<Rightarrow> byte) \<Rightarrow> f32 \<Rightarrow> byte" where
  "astype_uint8 ic x =
     (case truncation x of
        Some z \<Rightarrow> if 0 \<le> z \<and> z \<le> 255 then word_of_int z else ic x
      | None \<Rightarrow> ic x)"

text \<open>
  On x86-64 the conversion is \<^verbatim>\<open>cvttss2si\<close> to a signed 32-bit integer, of which the low
  byte is kept; NaN, the infinities and numbers beyond the 32-bit range give the pattern
  \<^verbatim>\<open>0x80000000\<close>, whose low byte is 0.
\<close>

definition x86_invalid_cast :: "f32 \<Rightarrow> byte" where
  "x86_invalid_cast x =
     (case truncation x of
        Some z \<Rightarrow> if - (2 ^ 31) \<le> z \<and> z < 2 ^ 31 then word_of_int z else 0
      | None \<Rightarrow> 0)"

text \<open>
  \<^verbatim>\<open>np.transpose(input_array, (1, 2, 0))\<close> on the (3, 128, 128) array: the result has
  shape (128, 128, 3) and its element \<open>[r][c][k]\<close> is element \<open>[k][r][c]\<close> of the argument.
\<close>

definition transpose_1_2_0 :: "'a list list list \<Rightarrow> 'a list list list" where
  "transpose_1_2_0 a =
     map (\<lambda>r. map (\<lambda>c. map (\<lambda>k. a ! k ! r ! c) [0..<3]) [0..<128]) [0..<128]"

text \<open>
  \<^verbatim>\<open>Image.fromarray(arr, 'RGB')\<close> on an array of shape (height, width, 3): an RGB image
  whose raw data are the array's bytes in C order, three bytes R, G, B per pixel, rows
  from the top.
\<close>

record image =
  im_mode :: string
  im_width :: nat
  im_height :: nat
  im_data :: "byte list"

definition fromarray_RGB :: "byte list list list \<Rightarrow> image" where
  "fromarray_RGB a =
     \<lparr>im_mode = ''RGB'',
      im_width = (case a of [] \<Rightarrow> 0 | row # _ \<Rightarrow> length row),
      im_height = length a,
      im_data = concat (concat a)\<rparr>"

text \<open>The band \<open>k\<close> (0 is R, 1 is G, 2 is B) of the pixel in row \<open>r\<close> and column \<open>c\<close>.\<close>

definition getpixel :: "image \<Rightarrow> nat \<Rightarrow> nat \<Rightarrow> nat \<Rightarrow> byte" where
  "getpixel im r c k = im_data im ! ((r * im_width im + c) * 3 + k)"

section \<open>The program\<close>

text \<open>
  Lines 25 to 41: from the bytes read to the image that is saved.  The slice keeps the
  first \<open>3 * 128 * 128 * 4\<close> bytes, or all of them when there are fewer.
\<close>

definition convert :: "(f32 \<Rightarrow> byte) \<Rightarrow> byte list \<Rightarrow> exn + image" where
  "convert ic input_bin =
     (let input_bin = take (3 * 128 * 128 * 4) input_bin in
      (case frombuffer input_bin of
         Inl e \<Rightarrow> Inl e
       | Inr input_array \<Rightarrow>
           (case reshape_3_128_128 input_array of
              Inl e \<Rightarrow> Inl e
            | Inr input_array \<Rightarrow>
                (case normalize input_array of
                   Inl e \<Rightarrow> Inl e
                 | Inr input_array \<Rightarrow>
                     (let input_array = map3 (astype_uint8 ic) input_array
                      in Inr (fromarray_RGB (transpose_1_2_0 input_array)))))))"

text \<open>
  Two names for stating properties of \<open>convert\<close>: the float32 samples the program
  decodes from its input, and what line 34 computes for one element \<open>v\<close> from the
  minimum \<open>mn\<close> and the maximum \<open>mx\<close> of the array.
\<close>

definition samples :: "byte list \<Rightarrow> f32 list" where
  "samples input_bin = decode_floats (take (3 * 128 * 128 * 4) input_bin)"

definition rescale :: "f32 \<Rightarrow> f32 \<Rightarrow> f32 \<Rightarrow> f32" where
  "rescale mn mx v = fmul (fdiv (fsub v mn) (fsub mx mn)) (Fin False 255)"

text \<open>
  Sample \<open>i\<close> of the input lies in plane \<open>i div 16384\<close>, row \<open>i mod 16384 div 128\<close> and
  column \<open>i mod 128\<close>; \<open>pixel_of_sample im i\<close> is the byte of the image at that row,
  column and band.
\<close>

definition pixel_of_sample :: "image \<Rightarrow> nat \<Rightarrow> byte" where
  "pixel_of_sample im i = getpixel im (i mod 16384 div 128) (i mod 128) (i div 16384)"

text \<open>
  The process and its surroundings: the files by path, the lines printed to standard
  output, and the log of the file-system calls the program makes.  Two things are the
  host's and not the program's.  One is the byte an invalid conversion leaves.  The other
  is \<^verbatim>\<open>Image.save\<close>: PIL picks an encoder from the extension of the path, opens the file
  for writing and encodes into it; it can raise (ValueError for an extension it does not
  know, OSError when the file cannot be opened or written) and, whether it raises or not,
  it can leave the file system changed (a file created, truncated or replaced).  It is a
  function of the path, the image and the file system, and returns the exception raised,
  if any, and the file system it leaves.
\<close>

datatype io_event = OpenRead string | SaveImage string

record world =
  files :: "string \<rightharpoonup> byte list"
  stdout :: "string list"
  io_log :: "io_event list"

record host =
  invalid_cast :: "f32 \<Rightarrow> byte"
  image_save :: "string \<Rightarrow> image \<Rightarrow> (string \<rightharpoonup> byte list)
                 \<Rightarrow> exn option \<times> (string \<rightharpoonup> byte list)"

datatype outcome = Exit nat | Uncaught exn

definition usage :: string where
  "usage = ''Usage: python bin2img_fp32.py <path/to/output.bin> <path/to/output.png>''"

definition main :: "host \<Rightarrow> string list \<Rightarrow> world \<Rightarrow> outcome \<times> world" where
  "main h argv w =
     (if length argv < 3 then (Exit 1, w\<lparr>stdout := stdout w @ [usage]\<rparr>)
      else
        let input_path = argv ! 1;
            output_path = argv ! 2;
            w = w\<lparr>io_log := io_log w @ [OpenRead input_path]\<rparr>
        in case files w input_path of
             None \<Rightarrow> (Uncaught FileNotFoundError, w)
           | Some input_bin \<Rightarrow>
               (case convert (invalid_cast h) input_bin of
                  Inl e \<Rightarrow> (Uncaught e, w)
                | Inr output_image \<Rightarrow>
                    (case image_save h output_path output_image (files w) of
                       (raised, fs) \<Rightarrow>
                         ((case raised of None \<Rightarrow> Exit 0 | Some e \<Rightarrow> Uncaught e),
                          w\<lparr>files := fs, io_log := io_log w @ [SaveImage output_path]\<rparr>))))"

section \<open>Concrete inputs\<close>

text \<open>
  The scenario of the specification: the float32 values \<open>-1.0, 0.0, 1.0\<close> (little-endian
  \<^verbatim>\<open>00 00 80 BF\<close>, \<^verbatim>\<open>00 00 00 00\<close>, \<^verbatim>\<open>00 00 80 3F\<close>) repeated over the 49152 slots.
\<close>

definition scenario_input :: "byte list" where
  "scenario_input = concat (replicate 16384 [0, 0, 0x80, 0xBF, 0, 0, 0, 0, 0, 0, 0x80, 0x3F])"

text \<open>
  An input with both infinities: \<open>-inf\<close> (\<^verbatim>\<open>00 00 80 FF\<close>) in slot 0, \<open>+inf\<close>
  (\<^verbatim>\<open>00 00 80 7F\<close>) in slot 1, and \<open>0.0\<close> in the other 49150 slots.
\<close>

definition infinite_input :: "byte list" where
  "infinite_input = [0, 0, 0x80, 0xFF, 0, 0, 0x80, 0x7F] @ replicate 196600 0"

text \<open>
  An input whose three planes differ: plane 0 is \<open>0.0\<close> throughout, plane 1 is
  \<open>1.0\<close> (\<^verbatim>\<open>00 00 80 3F\<close>) and plane 2 is \<open>2.0\<close> (\<^verbatim>\<open>00 00 00 40\<close>).
\<close>

definition planes_input :: "byte list" where
  "planes_input = replicate 65536 0 @ concat (replicate 16384 [0, 0, 0x80, 0x3F])
                  @ concat (replicate 16384 [0, 0, 0, 0x40])"


definition short_input :: "byte list" where
  "short_input = [1, 2, 3]"

text \<open>
  A host for running the program on these inputs: the x86-64 conversion, a save that
  always succeeds and stores the raw RGB bytes, and a file system holding the inputs.
\<close>

definition demo_host :: host where
  "demo_host =
     \<lparr>invalid_cast = x86_invalid_cast,
      image_save = (\<lambda>path im fs. (None, fs(path \<mapsto> im_data im)))\<rparr>"

definition demo_world :: world where
  "demo_world =
     \<lparr>files = [''scenario.bin'' \<mapsto> scenario_input, ''short.bin'' \<mapsto> short_input],
      stdout = [], io_log = []\<rparr>"

lemma length_decode_floats: "length (decode_floats bs) = length bs div 4"
  by (induction bs rule: decode_floats.induct) simp_all

lemma length_split_axis: "length (split_axis k n xs) = k"
  by (simp add: split_axis_def)

lemma nth_split_axis: "i < k \<Longrightarrow> split_axis k n xs ! i = take n (drop (i * n) xs)"
  by (simp add: split_axis_def)

lemma concat_split_axis: "length xs = k * n \<Longrightarrow> concat (split_axis k n xs) = xs"
proof (induction k arbitrary: xs)
  case 0
  then show ?case by (simp add: split_axis_def)
next
  case (Suc k)
  have "split_axis (Suc k) n xs = take n xs # split_axis k n (drop n xs)"
    unfolding split_axis_def
    by (simp add: upt_conv_Cons map_Suc_upt[symmetric] add.commute del: upt_Suc)
  moreover have "length (drop n xs) = k * n" using Suc.prems by simp
  ultimately show ?case using Suc.IH[of "drop n xs"] by simp
qed

lemma length_block:
  assumes "i < k" "length xs = k * n"
  shows "length (take n (drop (i * n) xs)) = n"
proof -
  have "Suc i * n \<le> k * n" using assms(1) by (intro mult_right_mono) auto
  then have "n + i * n \<le> length xs" using assms(2) by simp
  then show ?thesis by simp
qed

lemma concat_map_split_axis:
  assumes "length xs = a * (b * c)"
  shows "concat (concat (map (split_axis b c) (split_axis a (b * c) xs))) = xs"
proof -
  have "\<And>ys. ys \<in> set (split_axis a (b * c) xs) \<Longrightarrow> length ys = b * c"
    using assms by (auto simp: split_axis_def length_block simp del: length_take length_drop)
  then have "map concat (map (split_axis b c) (split_axis a (b * c) xs)) = split_axis a (b * c) xs"
    by (simp add: map_idI concat_split_axis)
  moreover have "concat (concat yss) = concat (map concat yss)" for yss :: "'a list list list"
    by (induction yss) simp_all
  ultimately show ?thesis using assms by (simp add: concat_split_axis)
qed

lemma nth_block:
  assumes "i < k" "j < n" "length xs = k * n"
  shows "take n (drop (i * n) xs) ! j = xs ! (i * n + j)"
proof -
  have "Suc i * n \<le> k * n" using assms(1) by (intro mult_right_mono) auto
  then have "n + i * n \<le> length xs" using assms(3) by simp
  then show ?thesis using assms(2) by simp
qed

lemma nth_reshape:
  assumes "length xs = 3 * 128 * 128" "k < 3" "r < 128" "c < 128"
  shows "map (split_axis 128 128) (split_axis 3 (128 * 128) xs) ! k ! r ! c = xs ! (k * 16384 + r * 128 + c)"
proof -
  let ?p = "take (128 * 128) (drop (k * (128 * 128)) xs)"
  have lp: "length ?p = 128 * 128"
    using assms(1,2) length_block[of k 3 xs "128 * 128"] by simp
  have "map (split_axis 128 128) (split_axis 3 (128 * 128) xs) ! k ! r ! c = take 128 (drop (r * 128) ?p) ! c"
    using assms by (simp add: nth_split_axis length_split_axis)
  also have "\<dots> = ?p ! (r * 128 + c)"
    using nth_block[of r 128 c 128 ?p] lp assms by simp
  also have "\<dots> = xs ! (k * (128 * 128) + (r * 128 + c))"
  proof -
    have "r * 128 + c < 128 * 128" using assms(3,4) by simp
    then show ?thesis using nth_block[of k 3 "r * 128 + c" "128 * 128" xs] assms(1,2) by simp
  qed
  finally show ?thesis by (simp add: add.assoc)
qed


lemma nth_concat_blocks:
  "\<forall>ys\<in>set xss. length ys = m \<Longrightarrow> i < length xss \<Longrightarrow> j < m \<Longrightarrow> concat xss ! (i * m + j) = xss ! i ! j"
proof (induction xss arbitrary: i)
  case Nil
  then show ?case by simp
next
  case (Cons ys xss)
  show ?case
  proof (cases i)
    case 0
    then show ?thesis using Cons.prems by (simp add: nth_append)
  next
    case (Suc i')
    then show ?thesis using Cons.prems Cons.IH[of i'] by (simp add: nth_append)
  qed
qed

lemma length_concat_blocks:
  "\<forall>ys\<in>set xss. length ys = m \<Longrightarrow> length (concat xss) = length xss * m"
  by (induction xss) simp_all

lemma getpixel_fromarray:
  assumes "r < 128" "c < 128" "k < 3"
  shows "getpixel (fromarray_RGB (transpose_1_2_0 a)) r c k = a ! k ! r ! c"
proof -
  let ?T = "transpose_1_2_0 a"
  have w: "im_width (fromarray_RGB ?T) = 128"
    by (simp add: fromarray_RGB_def transpose_1_2_0_def upt_conv_Cons[of 0 128])
  have rows: "\<forall>ys\<in>set ?T. length ys = 128"
    by (auto simp: transpose_1_2_0_def)
  have px: "\<forall>ys\<in>set (concat ?T). length ys = 3"
    by (auto simp: transpose_1_2_0_def)
  have lT: "length ?T = 128" by (simp add: transpose_1_2_0_def)
  have lc: "length (concat ?T) = 128 * 128"
    using length_concat_blocks[OF rows] lT by simp
  have rc: "r * 128 + c < 128 * 128" using assms by simp
  have "concat (concat ?T) ! ((r * 128 + c) * 3 + k) = concat ?T ! (r * 128 + c) ! k"
    using nth_concat_blocks[OF px, of "r * 128 + c" k] rc lc assms(3) by simp
  also have "concat ?T ! (r * 128 + c) = ?T ! r ! c"
    using nth_concat_blocks[OF rows, of r c] lT assms by simp
  also have "?T ! r ! c ! k = a ! k ! r ! c"
    using assms by (simp add: transpose_1_2_0_def)
  finally have "concat (concat ?T) ! ((r * 128 + c) * 3 + k) = a ! k ! r ! c" .
  moreover have "im_data (fromarray_RGB ?T) = concat (concat ?T)" by (simp add: fromarray_RGB_def)
  ultimately show ?thesis unfolding getpixel_def w by simp
qed

lemma fromarray_shape:
  "im_mode (fromarray_RGB (transpose_1_2_0 a)) = ''RGB''"
  "im_width (fromarray_RGB (transpose_1_2_0 a)) = 128"
  "im_height (fromarray_RGB (transpose_1_2_0 a)) = 128"
  "length (im_data (fromarray_RGB (transpose_1_2_0 a))) = 128 * 128 * 3"
proof -
  let ?T = "transpose_1_2_0 a"
  have rows: "\<forall>ys\<in>set ?T. length ys = 128"
    by (auto simp: transpose_1_2_0_def)
  have px: "\<forall>ys\<in>set (concat ?T). length ys = 3"
    by (auto simp: transpose_1_2_0_def)
  have lT: "length ?T = 128" by (simp add: transpose_1_2_0_def)
  show "im_mode (fromarray_RGB ?T) = ''RGB''" by (simp add: fromarray_RGB_def)
  show "im_width (fromarray_RGB ?T) = 128"
    by (simp add: fromarray_RGB_def transpose_1_2_0_def upt_conv_Cons[of 0 128])
  show "im_height (fromarray_RGB ?T) = 128" by (simp add: fromarray_RGB_def lT)
  show "length (im_data (fromarray_RGB ?T)) = 128 * 128 * 3"
    using length_concat_blocks[OF px] length_concat_blocks[OF rows] lT
    by (simp add: fromarray_RGB_def)
qed

lemma length_samples: "196608 \<le> length bin \<Longrightarrow> length (samples bin) = 49152"
  by (simp add: samples_def length_decode_floats min_def)

lemma frombuffer_take: "196608 \<le> length bin \<Longrightarrow> frombuffer (take (3 * 128 * 128 * 4) bin) = Inr (samples bin)"
  by (simp add: frombuffer_def samples_def min_def)

lemma reduce_reshaped:
  assumes "length xs = 3 * 128 * 128"
  shows "reduce f (map (split_axis 128 128) (split_axis 3 (128 * 128) xs)) = Inr (foldl f (hd xs) (tl xs))"
proof -
  have "concat (concat (map (split_axis 128 128) (split_axis 3 (128 * 128) xs))) = xs"
    using concat_map_split_axis[of xs 3 128 128] assms by simp
  moreover obtain x r where "xs = x # r" using assms by (cases xs) auto
  ultimately show ?thesis by (simp add: reduce_def)
qed

lemma map3_map3: "map3 f (map3 g a) = map3 (f \<circ> g) a"
  by (simp add: map3_def comp_def)

lemma nth_map3:
  "k < length a \<Longrightarrow> r < length (a ! k) \<Longrightarrow> c < length (a ! k ! r) \<Longrightarrow> map3 f a ! k ! r ! c = f (a ! k ! r ! c)"
  by (simp add: map3_def)

lemma reshape_samples:
  "length xs = 49152 \<Longrightarrow> reshape_3_128_128 xs = Inr (map (split_axis 128 128) (split_axis 3 (128 * 128) xs))"
  by (simp add: reshape_3_128_128_def)

lemma shape_reshaped:
  assumes "length xs = 49152"
  defines "a \<equiv> map (split_axis 128 128) (split_axis 3 (128 * 128) xs)"
  shows "length a = 3" "k < 3 \<Longrightarrow> length (a ! k) = 128"
    "k < 3 \<Longrightarrow> r < 128 \<Longrightarrow> length (a ! k ! r) = 128"
proof -
  show "length a = 3" by (simp add: a_def length_split_axis)
  show "length (a ! k) = 128" if "k < 3"
    using that by (simp add: a_def length_split_axis nth_split_axis)
  show "length (a ! k ! r) = 128" if "k < 3" "r < 128"
  proof -
    have "length (take (128 * 128) (drop (k * (128 * 128)) xs)) = 128 * 128"
      using length_block[of k 3 xs "128 * 128"] assms(1) that(1) by simp
    then show ?thesis
      using that length_block[of r 128 "take (128 * 128) (drop (k * (128 * 128)) xs)" 128]
      by (simp add: a_def length_split_axis nth_split_axis del: length_take length_drop)
  qed
qed

lemma normalize_reshaped:
  assumes "length xs = 49152"
  defines "a \<equiv> map (split_axis 128 128) (split_axis 3 (128 * 128) xs)"
  shows "normalize a = Inr (map3 (rescale (foldl fminimum (hd xs) (tl xs)) (foldl fmaximum (hd xs) (tl xs))) a)"
proof -
  have mn: "amin a = Inr (foldl fminimum (hd xs) (tl xs))"
    unfolding amin_def a_def using reduce_reshaped[of xs fminimum] assms(1) by simp
  have mx: "amax a = Inr (foldl fmaximum (hd xs) (tl xs))"
    unfolding amax_def a_def using reduce_reshaped[of xs fmaximum] assms(1) by simp
  have "(\<lambda>v. fmul (fdiv (fsub v mn') den) (Fin False 255)) = rescale mn' mx'" if "den = fsub mx' mn'"
    for mn' mx' den
    using that by (simp add: fun_eq_iff rescale_def)
  then show ?thesis
    by (simp add: normalize_def mn mx map3_map3 comp_def)
qed

lemma convert_valid:
  assumes "196608 \<le> length bin"
  defines "xs \<equiv> samples bin"
  defines "a \<equiv> map (split_axis 128 128) (split_axis 3 (128 * 128) xs)"
  defines "mn \<equiv> foldl fminimum (hd xs) (tl xs)"
  defines "mx \<equiv> foldl fmaximum (hd xs) (tl xs)"
  shows "reshape_3_128_128 xs = Inr a" "amin a = Inr mn" "amax a = Inr mx"
    "convert ic bin = Inr (fromarray_RGB (transpose_1_2_0 (map3 (astype_uint8 ic \<circ> rescale mn mx) a)))"
proof -
  have len: "length xs = 49152" using assms(1) by (simp add: xs_def length_samples)
  show r: "reshape_3_128_128 xs = Inr a" using len by (simp add: a_def reshape_samples)
  show "amin a = Inr mn"
    unfolding amin_def a_def mn_def using reduce_reshaped[of xs fminimum] len by simp
  show "amax a = Inr mx"
    unfolding amax_def a_def mx_def using reduce_reshaped[of xs fmaximum] len by simp
  have n: "normalize a = Inr (map3 (rescale mn mx) a)"
    unfolding a_def mn_def mx_def using normalize_reshaped[OF len] by simp
  have fb: "frombuffer (take (3 * 128 * 128 * 4) bin) = Inr xs"
    using frombuffer_take[OF assms(1)] by (simp add: xs_def)
  show "convert ic bin = Inr (fromarray_RGB (transpose_1_2_0 (map3 (astype_uint8 ic \<circ> rescale mn mx) a)))"
    unfolding convert_def Let_def fb using r n by (simp add: map3_map3)
qed

lemma convert_pixel:
  assumes "196608 \<le> length bin" "k < 3" "r < 128" "c < 128"
    and "reshape_3_128_128 (samples bin) = Inr a" "amin a = Inr mn" "amax a = Inr mx"
  shows "\<exists>im. convert ic bin = Inr im \<and> im_mode im = ''RGB'' \<and> im_width im = 128
            \<and> im_height im = 128 \<and> length (im_data im) = 49152
            \<and> getpixel im r c k = astype_uint8 ic (rescale mn mx (samples bin ! (k * 16384 + r * 128 + c)))"
proof -
  let ?xs = "samples bin"
  let ?a = "map (split_axis 128 128) (split_axis 3 (128 * 128) ?xs)"
  have len: "length ?xs = 49152" using assms(1) by (simp add: length_samples)
  note cv = convert_valid[OF assms(1)]
  have a: "a = ?a" using cv(1) assms(5) by simp
  have mn: "mn = foldl fminimum (hd ?xs) (tl ?xs)" using cv(2) assms(6) a by simp
  have mx: "mx = foldl fmaximum (hd ?xs) (tl ?xs)" using cv(3) assms(7) a by simp
  let ?q = "map3 (astype_uint8 ic \<circ> rescale mn mx) ?a"
  have "?q ! k ! r ! c = (astype_uint8 ic \<circ> rescale mn mx) (?a ! k ! r ! c)"
    using shape_reshaped[OF len] assms(2,3,4) by (intro nth_map3) simp_all
  also have "?a ! k ! r ! c = ?xs ! (k * 16384 + r * 128 + c)"
    using nth_reshape[of ?xs k r c] len assms(2,3,4) by simp
  finally have e1: "?q ! k ! r ! c = astype_uint8 ic (rescale mn mx (?xs ! (k * 16384 + r * 128 + c)))"
    unfolding comp_apply .
  have e2: "getpixel (fromarray_RGB (transpose_1_2_0 ?q)) r c k = ?q ! k ! r ! c"
    by (rule getpixel_fromarray[OF assms(3,4,2)])
  have "getpixel (fromarray_RGB (transpose_1_2_0 ?q)) r c k
      = astype_uint8 ic (rescale mn mx (?xs ! (k * 16384 + r * 128 + c)))"
    unfolding e2 by (rule e1)
  then show ?thesis using cv(4)[where ic = ic] fromarray_shape[of ?q] unfolding mn mx by simp
qed

lemma length_concat_replicate: "length (concat (replicate n xs)) = n * length xs"
  by (induction n) simp_all

lemma length_scenario_input: "length scenario_input = 196608"
  by (simp add: scenario_input_def length_concat_replicate)

lemma convert_short:
  assumes "length bin < 196608"
  shows "convert ic bin = Inl ValueError"
proof (cases "length bin mod 4 = 0")
  case True
  have "length (decode_floats bin) \<noteq> 49152"
    using assms by (simp add: length_decode_floats)
  then show ?thesis using assms True
    by (simp add: convert_def frombuffer_def reshape_3_128_128_def)
next
  case False
  then show ?thesis using assms by (simp add: convert_def frombuffer_def)
qed

lemma convert_Inr:
  "196608 \<le> length bin \<Longrightarrow> \<exists>im. convert ic bin = Inr im"
  using convert_valid(4) by blast

text \<open>
  Claim C9.  Started with fewer than two positional arguments (\<open>sys.argv\<close> shorter than 3,
  the program name included), the program prints the usage line to standard output and
  exits with code 1; no file is opened, read or written.
\<close>

theorem usage_on_missing_arguments:
  assumes "length argv < 3"
  shows "fst (main h argv w) = Exit 1
       \<and> stdout (snd (main h argv w)) = stdout w @ [usage]
       \<and> files (snd (main h argv w)) = files w
       \<and> io_log (snd (main h argv w)) = io_log w"
  using assms by (simp add: main_def)

theorem usage_on_missing_arguments_witness:
  "length [''bin2img_fp32.py'', ''scenario.bin''] < 3
   \<and> fst (main demo_host [''bin2img_fp32.py'', ''scenario.bin''] demo_world) = Exit 1
   \<and> stdout (snd (main demo_host [''bin2img_fp32.py'', ''scenario.bin''] demo_world)) = [usage]
   \<and> io_log (snd (main demo_host [''bin2img_fp32.py'', ''scenario.bin''] demo_world)) = []"
  using usage_on_missing_arguments[of "[''bin2img_fp32.py'', ''scenario.bin'']" demo_host demo_world]
  by (simp add: demo_world_def)

text \<open>
  Claim C4.  When the input file holds fewer than 196608 bytes, the run ends in the
  ValueError that \<^verbatim>\<open>frombuffer\<close> or \<^verbatim>\<open>reshape\<close> raises (the specification's
  MalformedInputError); the files are as before, so nothing is written at the output path,
  and the only file-system call is the opening of the input.
\<close>

theorem short_input_fails:
  assumes "3 \<le> length argv" "files w (argv ! 1) = Some input_bin" "length input_bin < 196608"
  shows "fst (main h argv w) = Uncaught ValueError
       \<and> files (snd (main h argv w)) = files w
       \<and> io_log (snd (main h argv w)) = io_log w @ [OpenRead (argv ! 1)]"
  using assms convert_short[OF assms(3)] by (simp add: main_def)

theorem short_input_fails_witness:
  "fst (main demo_host [''bin2img_fp32.py'', ''short.bin'', ''out.png''] demo_world) = Uncaught ValueError
   \<and> files (snd (main demo_host [''bin2img_fp32.py'', ''short.bin'', ''out.png''] demo_world)) ''out.png'' = None
   \<and> io_log (snd (main demo_host [''bin2img_fp32.py'', ''short.bin'', ''out.png''] demo_world)) = [OpenRead ''short.bin'']"
  using short_input_fails[of "[''bin2img_fp32.py'', ''short.bin'', ''out.png'']" demo_world short_input demo_host]
  by (simp add: demo_world_def short_input_def)

text \<open>
  Claim C6.  Two inputs that agree on their first 196608 bytes are converted to the same
  result, whatever bytes follow.
\<close>

theorem output_depends_on_prefix:
  assumes "take 196608 a = take 196608 b"
  shows "convert ic a = convert ic b"
  using assms by (simp add: convert_def)

theorem output_depends_on_prefix_witness:
  "take 196608 scenario_input = take 196608 (scenario_input @ [7, 7, 7])
   \<and> convert x86_invalid_cast scenario_input = convert x86_invalid_cast (scenario_input @ [7, 7, 7])"
proof -
  have h: "take 196608 scenario_input = take 196608 (scenario_input @ [7, 7, 7])"
    by (simp add: length_scenario_input)
  show ?thesis using h output_depends_on_prefix[OF h] by simp
qed

subsection \<open>The order of float32 values and the reductions\<close>

lemma fle_refl: "\<not> isnan a \<Longrightarrow> fle a a"
  by (cases a) auto

lemma fle_trans: "fle a b \<Longrightarrow> fle b c \<Longrightarrow> fle a c"
  by (cases a; cases b; cases c) (auto split: if_splits)

lemma fle_total: "\<not> isnan a \<Longrightarrow> \<not> isnan b \<Longrightarrow> fle a b \<or> fle b a"
  by (cases a; cases b) (auto split: if_splits)


lemma isnan_iff: "isnan a \<longleftrightarrow> a = NaN"
  by (cases a) auto

lemma flt_iff: "flt a b \<longleftrightarrow> fle a b \<and> \<not> fle b a"
  by (cases a; cases b) (auto split: if_splits)

lemma fminimum_nan: "isnan a \<or> isnan b \<Longrightarrow> isnan (fminimum a b)"
  by (cases a; cases b) (auto simp: fminimum_def)

lemma fmaximum_nan: "isnan a \<or> isnan b \<Longrightarrow> isnan (fmaximum a b)"
  by (cases a; cases b) (auto simp: fmaximum_def)

lemma fminimum_cases: "\<not> isnan a \<Longrightarrow> \<not> isnan b \<Longrightarrow>
  (fminimum a b = a \<or> fminimum a b = b) \<and> fle (fminimum a b) a \<and> fle (fminimum a b) b"
  using fle_total[of a b] fle_refl[of a] fle_refl[of b] by (auto simp: fminimum_def flt_iff)

lemma fmaximum_cases: "\<not> isnan a \<Longrightarrow> \<not> isnan b \<Longrightarrow>
  (fmaximum a b = a \<or> fmaximum a b = b) \<and> fle a (fmaximum a b) \<and> fle b (fmaximum a b)"
  using fle_total[of a b] fle_refl[of a] fle_refl[of b] by (auto simp: fmaximum_def flt_iff)

lemma foldl_fminimum_nan:
  "\<exists>y\<in>set (x # xs). isnan y \<Longrightarrow> isnan (foldl fminimum x xs)"
proof (induction xs rule: rev_induct)
  case Nil
  then show ?case by simp
next
  case (snoc z zs)
  then show ?case by (auto intro: fminimum_nan)
qed

lemma foldl_fmaximum_nan:
  "\<exists>y\<in>set (x # xs). isnan y \<Longrightarrow> isnan (foldl fmaximum x xs)"
proof (induction xs rule: rev_induct)
  case Nil
  then show ?case by simp
next
  case (snoc z zs)
  then show ?case by (auto intro: fmaximum_nan)
qed

lemma foldl_fminimum_least:
  "\<forall>y\<in>set (x # xs). \<not> isnan y \<Longrightarrow>
   foldl fminimum x xs \<in> set (x # xs) \<and> (\<forall>y\<in>set (x # xs). fle (foldl fminimum x xs) y)"
proof (induction xs rule: rev_induct)
  case Nil
  then show ?case by (simp add: fle_refl)
next
  case (snoc z zs)
  let ?m = "foldl fminimum x zs"
  have ih: "?m \<in> set (x # zs)" "\<forall>y\<in>set (x # zs). fle ?m y"
    using snoc by auto
  have nn: "\<not> isnan ?m" "\<not> isnan z" using ih(1) snoc.prems by auto
  note c = fminimum_cases[OF nn]
  have "\<forall>y\<in>set (x # zs). fle (fminimum ?m z) y"
    using ih(2) c fle_trans by blast
  then show ?case using c ih(1) by auto
qed

lemma foldl_fmaximum_greatest:
  "\<forall>y\<in>set (x # xs). \<not> isnan y \<Longrightarrow>
   foldl fmaximum x xs \<in> set (x # xs) \<and> (\<forall>y\<in>set (x # xs). fle y (foldl fmaximum x xs))"
proof (induction xs rule: rev_induct)
  case Nil
  then show ?case by (simp add: fle_refl)
next
  case (snoc z zs)
  let ?m = "foldl fmaximum x zs"
  have ih: "?m \<in> set (x # zs)" "\<forall>y\<in>set (x # zs). fle y ?m"
    using snoc by auto
  have nn: "\<not> isnan ?m" "\<not> isnan z" using ih(1) snoc.prems by auto
  note c = fmaximum_cases[OF nn]
  have "\<forall>y\<in>set (x # zs). fle y (fmaximum ?m z)"
    using ih(2) c fle_trans by blast
  then show ?case using c ih(1) by auto
qed

text \<open>What \<open>min()\<close> and \<open>max()\<close> return on the reshaped samples.\<close>

lemma amin_amax_reshaped:
  assumes "reshape_3_128_128 xs = Inr a"
  shows "amin a = Inr (foldl fminimum (hd xs) (tl xs))" "amax a = Inr (foldl fmaximum (hd xs) (tl xs))"
    "xs = hd xs # tl xs" "length xs = 49152"
proof -
  have len: "length xs = 3 * 128 * 128" and a: "a = map (split_axis 128 128) (split_axis 3 (128 * 128) xs)"
    using assms by (auto simp: reshape_3_128_128_def split: if_splits)
  show "amin a = Inr (foldl fminimum (hd xs) (tl xs))"
    unfolding amin_def a by (rule reduce_reshaped[OF len])
  show "amax a = Inr (foldl fmaximum (hd xs) (tl xs))"
    unfolding amax_def a by (rule reduce_reshaped[OF len])
  show "xs = hd xs # tl xs" using len by (cases xs) auto
  show "length xs = 49152" using len by simp
qed

lemma global_extrema:
  assumes "reshape_3_128_128 xs = Inr a" "amin a = Inr mn" "amax a = Inr mx"
  shows "(\<exists>y\<in>set xs. isnan y) \<Longrightarrow> isnan mn \<and> isnan mx"
    and "(\<forall>y\<in>set xs. \<not> isnan y) \<Longrightarrow>
           mn \<in> set xs \<and> mx \<in> set xs \<and> (\<forall>y\<in>set xs. fle mn y \<and> fle y mx)"
proof -
  note r = amin_amax_reshaped[OF assms(1)]
  have mn: "mn = foldl fminimum (hd xs) (tl xs)" and mx: "mx = foldl fmaximum (hd xs) (tl xs)"
    using r(1,2) assms(2,3) by auto
  show "isnan mn \<and> isnan mx" if "\<exists>y\<in>set xs. isnan y"
    using foldl_fminimum_nan[of "hd xs" "tl xs"] foldl_fmaximum_nan[of "hd xs" "tl xs"] that r(3)
    unfolding mn mx by metis
  show "mn \<in> set xs \<and> mx \<in> set xs \<and> (\<forall>y\<in>set xs. fle mn y \<and> fle y mx)"
    if "\<forall>y\<in>set xs. \<not> isnan y"
    using foldl_fminimum_least[of "hd xs" "tl xs"] foldl_fmaximum_greatest[of "hd xs" "tl xs"] that r(3)
    unfolding mn mx by metis
qed

subsection \<open>Rounding\<close>

lemma rhe_bounds: "\<lfloor>x\<rfloor> \<le> rhe x \<and> rhe x \<le> \<lfloor>x\<rfloor> + 1"
  by (simp add: rhe_def Let_def)

lemma rhe_of_int [simp]: "rhe (of_int n) = n"
  by (simp add: rhe_def)

lemma rhe_mono:
  assumes "x \<le> y"
  shows "rhe x \<le> rhe y"
proof (cases "\<lfloor>x\<rfloor> = \<lfloor>y\<rfloor>")
  case True
  then have "x - of_int \<lfloor>x\<rfloor> \<le> y - of_int \<lfloor>y\<rfloor>" using assms by simp
  then show ?thesis using True by (auto simp: rhe_def Let_def)
next
  case False
  then have "\<lfloor>x\<rfloor> + 1 \<le> \<lfloor>y\<rfloor>" using floor_mono[OF assms] by simp
  then show ?thesis using rhe_bounds[of x] rhe_bounds[of y] by linarith
qed

lemma rhe_nonneg: "0 \<le> x \<Longrightarrow> 0 \<le> rhe x"
  using rhe_bounds[of x] by (simp add: order_trans[of 0 "\<lfloor>x\<rfloor>"])

lemma rmag_nonneg: "0 \<le> q \<Longrightarrow> 0 \<le> rmag q"
  by (simp add: rmag_def Let_def rhe_nonneg)

lemma bitlen_mono: "a \<le> b \<Longrightarrow> bitlen a \<le> bitlen b"
  by (simp add: bitlen_def floorlog_mono nat_mono)

lemma rmag_small:
  assumes "q < 2 ^ 24"
  shows "rmag q = rhe q"
proof -
  have "\<lfloor>q\<rfloor> < 2 ^ 24" using assms by (simp add: floor_less_iff)
  then have "bitlen \<lfloor>q\<rfloor> \<le> 24" by (simp add: bitlen_le_iff_power)
  then show ?thesis by (simp add: rmag_def)
qed

lemma rmag_upper: "rmag p \<le> 2 ^ (24 + nat (bitlen \<lfloor>p\<rfloor> - 24))"
proof -
  define s where "s = nat (bitlen \<lfloor>p\<rfloor> - 24)"
  have "bitlen \<lfloor>p\<rfloor> \<le> int (24 + s)" by (simp add: s_def)
  then have "\<lfloor>p\<rfloor> < 2 ^ (24 + s)"
    using bitlen_le_iff_power[of "\<lfloor>p\<rfloor>" "int (24 + s)"] by (simp add: nat_add_distrib)
  then have "p < of_int (2 ^ (24 + s))" by (simp only: floor_less_iff)
  then have "p < 2 ^ 24 * 2 ^ s" by (simp add: power_add)
  then have "p / 2 ^ s < 2 ^ 24" by (simp add: pos_divide_less_eq)
  then have "rhe (p / 2 ^ s) \<le> rhe (of_int (2 ^ 24))" by (intro rhe_mono) simp
  then have "rhe (p / 2 ^ s) \<le> 2 ^ 24" by (simp only: rhe_of_int)
  then have "rhe (p / 2 ^ s) * 2 ^ s \<le> 2 ^ 24 * 2 ^ s" by (intro mult_right_mono) simp_all
  then show ?thesis by (simp add: rmag_def Let_def s_def power_add)
qed

lemma rmag_lower:
  assumes "0 < nat (bitlen \<lfloor>q\<rfloor> - 24)"
  shows "2 ^ (23 + nat (bitlen \<lfloor>q\<rfloor> - 24)) \<le> rmag q"
proof -
  define s where "s = nat (bitlen \<lfloor>q\<rfloor> - 24)"
  have "int (24 + s) \<le> bitlen \<lfloor>q\<rfloor>" using assms by (simp add: s_def)
  then have "2 ^ (nat (int (24 + s)) - 1) \<le> \<lfloor>q\<rfloor>"
    using bitlen_ge_iff_power[of "int (24 + s)" "\<lfloor>q\<rfloor>"] by (simp del: of_nat_add)
  moreover have "nat (int (24 + s)) - 1 = 23 + s" by simp
  ultimately have "(2::int) ^ (23 + s) \<le> \<lfloor>q\<rfloor>" by (simp only:)
  then have "of_int (2 ^ (23 + s)) \<le> q" by (simp only: le_floor_iff)
  then have "2 ^ 23 * 2 ^ s \<le> q" by (simp add: power_add)
  then have "2 ^ 23 \<le> q / 2 ^ s" by (simp add: pos_le_divide_eq)
  then have "rhe (of_int (2 ^ 23)) \<le> rhe (q / 2 ^ s)" by (intro rhe_mono) simp
  then have "2 ^ 23 \<le> rhe (q / 2 ^ s)" by (simp only: rhe_of_int)
  then have "2 ^ 23 * 2 ^ s \<le> rhe (q / 2 ^ s) * 2 ^ s" by (intro mult_right_mono) simp_all
  then show ?thesis by (simp add: rmag_def Let_def s_def power_add)
qed

lemma rmag_mono:
  assumes "p \<le> q"
  shows "rmag p \<le> rmag q"
proof -
  define sp where "sp = nat (bitlen \<lfloor>p\<rfloor> - 24)"
  define sq where "sq = nat (bitlen \<lfloor>q\<rfloor> - 24)"
  have "bitlen \<lfloor>p\<rfloor> \<le> bitlen \<lfloor>q\<rfloor>" using assms by (intro bitlen_mono floor_mono)
  then have le: "sp \<le> sq" by (simp add: sp_def sq_def)
  show ?thesis
  proof (cases "sp = sq")
    case True
    have "p / 2 ^ sq \<le> q / 2 ^ sq" using assms by (simp add: divide_right_mono)
    then have "rhe (p / 2 ^ sq) * 2 ^ sq \<le> rhe (q / 2 ^ sq) * 2 ^ sq"
      by (intro mult_right_mono rhe_mono) simp_all
    then show ?thesis using True by (simp add: rmag_def Let_def sp_def sq_def)
  next
    case False
    then have lt: "sp < sq" using le by simp
    have "rmag p \<le> 2 ^ (24 + sp)" unfolding sp_def by (rule rmag_upper)
    also have "(2::int) ^ (24 + sp) \<le> 2 ^ (23 + sq)" using lt by (intro power_increasing) simp_all
    also have "\<dots> \<le> rmag q" unfolding sq_def using lt by (intro rmag_lower) (simp add: sq_def)
    finally show ?thesis .
  qed
qed

lemma rmag_repr:
  assumes "0 \<le> m" "m < 2 ^ 24"
  shows "rmag (of_int (m * 2 ^ e)) = m * 2 ^ e"
proof -
  define s where "s = nat (bitlen (m * 2 ^ e) - 24)"
  have "m * 2 ^ e < 2 ^ 24 * 2 ^ e" using assms(2) by (intro mult_strict_right_mono) simp_all
  then have "m * 2 ^ e < 2 ^ nat (int (24 + e))" by (simp only: nat_int power_add)
  then have "bitlen (m * 2 ^ e) \<le> int (24 + e)"
    using bitlen_le_iff_power[of "m * 2 ^ e" "int (24 + e)"] by simp
  then have se: "s \<le> e" by (simp add: s_def)
  then have "(2::rat) ^ e = 2 ^ (e - s) * 2 ^ s" by (simp flip: power_add)
  then have "(of_int (m * 2 ^ e) :: rat) / 2 ^ s = of_int (m * 2 ^ (e - s))" by simp
  then have "rhe (of_int (m * 2 ^ e) / 2 ^ s) = m * 2 ^ (e - s)" by (simp only: rhe_of_int)
  then have "rhe (of_int (m * 2 ^ e) / 2 ^ s) * 2 ^ s = m * (2 ^ (e - s) * 2 ^ s)" by simp
  also have "\<dots> = m * 2 ^ e" using se by (simp flip: power_add)
  finally have r: "rhe (of_int (m * 2 ^ e) / 2 ^ s) * 2 ^ s = m * 2 ^ e" .
  have "\<lfloor>of_int (m * 2 ^ e) :: rat\<rfloor> = m * 2 ^ e" by (rule floor_of_int)
  then show ?thesis unfolding rmag_def Let_def using r by (simp only: s_def)
qed

lemma umag_mono:
  assumes "a \<le> b"
  shows "umag a \<le> umag b"
proof -
  have "a * 2 ^ 149 \<le> b * 2 ^ 149" using assms by (intro mult_right_mono) simp_all
  then have "rmag (a * 2 ^ 149) \<le> rmag (b * 2 ^ 149)" by (rule rmag_mono)
  then have "(of_int (rmag (a * 2 ^ 149)) :: rat) \<le> of_int (rmag (b * 2 ^ 149))" by simp
  then show ?thesis unfolding umag_def by (intro divide_right_mono) simp_all
qed

lemma umag_repr:
  assumes "0 \<le> m" "m < 2 ^ 24"
  shows "umag (of_int m * 2 ^ e / 2 ^ 149) = of_int m * 2 ^ e / 2 ^ 149"
proof -
  have "rmag (of_int m * 2 ^ e / 2 ^ 149 * 2 ^ 149) = rmag (of_int (m * 2 ^ e))" by simp
  then show ?thesis unfolding umag_def by (simp only: rmag_repr[OF assms]) simp
qed

lemma umag_values:
  "umag 0 = 0" "umag 1 = 1" "umag 2 = 2" "umag 255 = 255" "umag (1 / 2) = 1 / 2"
  "umag (255 / 2) = 255 / 2" "umag (1 / 2 ^ 149) = 1 / 2 ^ 149"
  using umag_repr[of 0 0] umag_repr[of 1 149] umag_repr[of 1 150] umag_repr[of 255 149]
    umag_repr[of 1 148] umag_repr[of 255 148] umag_repr[of 1 0]
  by simp_all

lemma umag_nonneg: "0 \<le> a \<Longrightarrow> 0 \<le> umag a"
  using umag_mono[of 0 a] by (simp add: umag_values)

lemma round32_zero: "round32 s 0 = Fin s 0"
  by (simp add: round32_def umag_values)

lemma round32_cases: "round32 s m = Inf s \<and> 2 ^ 128 \<le> umag m \<or> round32 s m = Fin s (umag m) \<and> umag m < 2 ^ 128"
  by (simp add: round32_def)

subsection \<open>The three operations of line 34 on one element\<close>

lemma rescale_inf_min: "rescale (Inf sm) mx w = NaN"
proof -
  have n: "fsub w (Inf sm) = NaN \<or> (\<exists>s. fsub w (Inf sm) = Inf s)" for w
    by (cases w) auto
  from n[of mx] n[of w] show ?thesis
    by (auto simp: rescale_def)
qed

lemma rescale_nan_min: "rescale NaN mx w = NaN"
  by (cases w) (simp_all add: rescale_def)

lemma fsub_fin_nonneg:
  assumes "r = valof (Fin sv a) - valof (Fin sm m)" "0 \<le> r"
  shows "(2 ^ 128 \<le> umag r \<and> fsub (Fin sv a) (Fin sm m) = Inf False)
       \<or> (umag r < 2 ^ 128 \<and> (\<exists>s. fsub (Fin sv a) (Fin sm m) = Fin s (umag r) \<and> (s \<longrightarrow> umag r = 0)))"
proof (cases "r = 0")
  case True
  then show ?thesis using assms(1) by (simp add: umag_values Let_def)
next
  case False
  then have "0 < r" using assms(2) by simp
  then have "fsub (Fin sv a) (Fin sm m) = round32 False r"
    using assms(1) by (simp add: Let_def)
  then show ?thesis using round32_cases[of False r] by auto
qed

lemma rescale_inf_den:
  assumes "fsub mx mn = Inf False"
  shows "fsub v mn = Fin s a \<Longrightarrow> rescale mn mx v = Fin s 0"
    and "fsub v mn = Inf s \<Longrightarrow> rescale mn mx v = NaN"
  using assms by (simp_all add: rescale_def round32_zero)

lemma rescale_zero_den:
  assumes "fsub mx mn = Fin t 0" "fsub v mn = Fin s 0"
  shows "rescale mn mx v = NaN"
  using assms by (simp add: rescale_def)

lemma rescale_range:
  assumes "fsub v mn = Fin s a" "0 \<le> a" "s \<longrightarrow> a = 0"
    and "fsub mx mn = Fin False dm" "0 < dm" "a \<le> dm"
  shows "\<exists>t. rescale mn mx v = Fin t (umag (umag (a / dm) * 255))
           \<and> (t \<longrightarrow> umag (umag (a / dm) * 255) = 0)"
    and "0 \<le> umag (umag (a / dm) * 255)" and "umag (umag (a / dm) * 255) \<le> 255"
proof -
  let ?q = "umag (a / dm)"
  let ?n = "umag (?q * 255)"
  have "0 \<le> a / dm" "a / dm \<le> 1" using assms(2,5,6) by simp_all
  then have q: "0 \<le> ?q" "?q \<le> 1"
    using umag_nonneg[of "a / dm"] umag_mono[of "a / dm" 1] by (simp_all add: umag_values)
  then have "0 \<le> ?q * 255" "?q * 255 \<le> 255" by simp_all
  then show n: "0 \<le> ?n" "?n \<le> 255"
    using umag_nonneg[of "?q * 255"] umag_mono[of "?q * 255" 255] by (simp_all add: umag_values)
  have "?q < 2 ^ 128" using q(2) by (rule le_less_trans) simp
  then have d: "fdiv (Fin s a) (Fin False dm) = Fin s ?q"
    using assms(5) by (simp add: round32_def)
  have "?n < 2 ^ 128" using n(2) by (rule le_less_trans) simp
  then have m: "fmul (Fin s ?q) (Fin False 255) = Fin s ?n"
    by (simp add: round32_def)
  have "s \<longrightarrow> ?n = 0" using assms(3) by (auto simp: umag_values)
  then show "\<exists>t. rescale mn mx v = Fin t ?n \<and> (t \<longrightarrow> ?n = 0)"
    using d m assms(1,4) by (auto simp: rescale_def)
qed

lemma astype_range:
  assumes "0 \<le> n" "n \<le> 255" "t \<longrightarrow> n = 0"
  shows "astype_uint8 ic (Fin t n) = word_of_int \<lfloor>n\<rfloor>"
proof -
  have "0 \<le> \<lfloor>n\<rfloor>" "\<lfloor>n\<rfloor> \<le> 255" using assms(1,2) by (simp_all add: floor_le_iff le_floor_iff)
  then show ?thesis using assms(3) by (auto simp: astype_uint8_def)
qed

lemma byte_of_int_mono:
  assumes "0 \<le> x" "x \<le> y" "y \<le> 255"
  shows "(word_of_int x :: byte) \<le> word_of_int y"
proof -
  have "uint (word_of_int x :: byte) = x" "uint (word_of_int y :: byte) = y"
    using assms by (simp_all add: uint_word_of_int take_bit_int_eq_self)
  then show ?thesis using assms(2) by (simp add: word_le_def)
qed

subsection \<open>Quantization is monotone\<close>

lemma fle_fin_cases:
  assumes "fle (Fin sm m) w"
  shows "w = Inf False \<or> (\<exists>sw a. w = Fin sw a \<and> 0 \<le> valof (Fin sw a) - valof (Fin sm m))"
  using assms by (cases w) (auto split: if_splits)

lemma inf_den_mono:
  assumes "fsub mx (Fin sm m) = Inf False" "fle (Fin sm m) u" "fle u v"
  shows "astype_uint8 ic (rescale (Fin sm m) mx u) \<le> astype_uint8 ic (rescale (Fin sm m) mx v)"
proof -
  let ?mn = "Fin sm m"
  have v_ge: "fle ?mn v" using assms(2,3) by (rule fle_trans)
  consider (fin) s a where "fsub u ?mn = Fin s a" | (inf) "fsub u ?mn = Inf False"
    using fle_fin_cases[OF assms(2)] fsub_fin_nonneg[of _ _ _ sm m] by fastforce
  then show ?thesis
  proof cases
    case fin
    then have "rescale ?mn mx u = Fin s 0" by (rule rescale_inf_den(1)[OF assms(1)])
    then have "astype_uint8 ic (rescale ?mn mx u) = 0" by (simp add: astype_uint8_def)
    then show ?thesis by simp
  next
    case inf
    have "fsub v ?mn = Inf False"
    proof -
      from fle_fin_cases[OF v_ge] show ?thesis
      proof
        assume "v = Inf False"
        then show ?thesis by simp
      next
        assume "\<exists>sw a. v = Fin sw a \<and> 0 \<le> valof (Fin sw a) - valof ?mn"
        then obtain sv av where v: "v = Fin sv av" "0 \<le> valof (Fin sv av) - valof ?mn" by blast
        from assms(3) v(1) assms(2) obtain su au where u: "u = Fin su au"
          by (cases u) auto
        let ?ru = "valof (Fin su au) - valof ?mn"
        let ?rv = "valof (Fin sv av) - valof ?mn"
        have le: "?ru \<le> ?rv" using assms(3) u v(1) by simp
        have ru0: "0 \<le> ?ru" using assms(2) u by simp
        have "2 ^ 128 \<le> umag ?ru"
          using fsub_fin_nonneg[OF refl ru0] inf u by auto
        then have "2 ^ 128 \<le> umag ?rv" using umag_mono[OF le] by simp
        then show ?thesis using fsub_fin_nonneg[OF refl v(2)] v(1) by auto
      qed
    qed
    then have "rescale ?mn mx v = NaN" by (rule rescale_inf_den(2)[OF assms(1)])
    moreover have "rescale ?mn mx u = NaN" using inf by (rule rescale_inf_den(2)[OF assms(1)])
    ultimately show ?thesis by simp
  qed
qed

lemma fin_den_mono:
  assumes "fsub (Fin sx x) (Fin sm m) = Fin t dm"
    and "fle (Fin sm m) u" "fle u v" "fle v (Fin sx x)"
  shows "astype_uint8 ic (rescale (Fin sm m) (Fin sx x) u) \<le> astype_uint8 ic (rescale (Fin sm m) (Fin sx x) v)"
proof -
  let ?mn = "Fin sm m" and ?mx = "Fin sx x"
  obtain su au where u: "u = Fin su au" using assms(2,3,4) by (cases u; cases v) auto
  obtain sv av where v: "v = Fin sv av" using assms(2,3,4) by (cases u; cases v) auto
  let ?ru = "valof (Fin su au) - valof ?mn"
  let ?rv = "valof (Fin sv av) - valof ?mn"
  let ?rd = "valof ?mx - valof ?mn"
  have r: "0 \<le> ?ru" "?ru \<le> ?rv" "?rv \<le> ?rd"
    using assms(2,3,4) u v by simp_all
  then have rd0: "0 \<le> ?rd" and rv0: "0 \<le> ?rv" by linarith+
  have d: "dm = umag ?rd" "umag ?rd < 2 ^ 128" "t \<longrightarrow> dm = 0"
    using fsub_fin_nonneg[OF refl rd0] assms(1) by auto
  have bu: "umag ?ru \<le> umag ?rv" and bv: "umag ?rv \<le> dm"
    using r umag_mono d(1) by simp_all
  then have "umag ?ru < 2 ^ 128" "umag ?rv < 2 ^ 128" using d(1,2) by linarith+
  then obtain s1 s2 where
    nu: "fsub u ?mn = Fin s1 (umag ?ru)" "s1 \<longrightarrow> umag ?ru = 0" and
    nv: "fsub v ?mn = Fin s2 (umag ?rv)" "s2 \<longrightarrow> umag ?rv = 0"
    using fsub_fin_nonneg[OF refl r(1)] fsub_fin_nonneg[OF refl rv0] u v by fastforce
  have p: "0 \<le> umag ?ru" "0 \<le> umag ?rv" using r(1) rv0 by (simp_all add: umag_nonneg)
  show ?thesis
  proof (cases "dm = 0")
    case True
    then have "umag ?ru = 0" "umag ?rv = 0" using bu bv p by linarith+
    then have "rescale ?mn ?mx u = NaN" "rescale ?mn ?mx v = NaN"
      using nu(1) nv(1) assms(1) True rescale_zero_den by simp_all
    then show ?thesis by simp
  next
    case False
    then have dpos: "0 < dm" using bv p(2) by linarith
    then have dd: "fsub ?mx ?mn = Fin False dm" using assms(1) d(3) by auto
    let ?nu = "umag (umag (umag ?ru / dm) * 255)"
    let ?nv = "umag (umag (umag ?rv / dm) * 255)"
    have leu: "umag ?ru \<le> dm" using bu bv by linarith
    note ru = rescale_range[OF nu(1) p(1) nu(2) dd dpos leu]
    note rv = rescale_range[OF nv(1) p(2) nv(2) dd dpos bv]
    have "umag ?ru / dm \<le> umag ?rv / dm" using bu dpos by (simp add: divide_right_mono)
    then have "umag (umag ?ru / dm) * 255 \<le> umag (umag ?rv / dm) * 255"
      by (intro mult_right_mono umag_mono) simp_all
    then have "?nu \<le> ?nv" by (rule umag_mono)
    then have fl: "\<lfloor>?nu\<rfloor> \<le> \<lfloor>?nv\<rfloor>" by (rule floor_mono)
    have "0 \<le> \<lfloor>?nu\<rfloor>" "\<lfloor>?nv\<rfloor> \<le> 255" using ru(2) rv(3) by (simp_all add: floor_le_iff le_floor_iff)
    then have "(word_of_int \<lfloor>?nu\<rfloor> :: byte) \<le> word_of_int \<lfloor>?nv\<rfloor>"
      using fl by (intro byte_of_int_mono)
    moreover have "astype_uint8 ic (rescale ?mn ?mx u) = word_of_int \<lfloor>?nu\<rfloor>"
      using ru astype_range[of ?nu] by auto
    moreover have "astype_uint8 ic (rescale ?mn ?mx v) = word_of_int \<lfloor>?nv\<rfloor>"
      using rv astype_range[of ?nv] by auto
    ultimately show ?thesis by simp
  qed
qed

lemma mono_core:
  assumes "fle mn u" "fle u v" "fle v mx"
  shows "astype_uint8 ic (rescale mn mx u) \<le> astype_uint8 ic (rescale mn mx v)"
proof (cases mn)
  case NaN
  then show ?thesis using assms(1) by simp
next
  case (Inf sm)
  then show ?thesis by (simp add: rescale_inf_min)
next
  case mn: (Fin sm m)
  show ?thesis
  proof (cases mx)
    case NaN
    then show ?thesis using assms(3) by (cases v) simp_all
  next
    case (Inf sx)
    have "fle mn mx" using assms fle_trans by blast
    then have "sx = False" using mn Inf by simp
    then have "fsub mx (Fin sm m) = Inf False" using Inf by simp
    then show ?thesis unfolding mn using assms(1,2) mn by (intro inf_den_mono) simp_all
  next
    case mx: (Fin sx x)
    have "fle mn mx" using assms fle_trans by blast
    then have "0 \<le> valof (Fin sx x) - valof (Fin sm m)" using mn mx by simp
    from fsub_fin_nonneg[OF refl this]
    consider "fsub mx (Fin sm m) = Inf False" | t dm where "fsub (Fin sx x) (Fin sm m) = Fin t dm"
      using mx by auto
    then show ?thesis
    proof cases
      case 1
      then show ?thesis unfolding mn using assms(1,2) mn by (intro inf_den_mono) simp_all
    next
      case 2
      then show ?thesis unfolding mn mx using assms mn mx by (intro fin_den_mono) simp_all
    qed
  qed
qed

subsection \<open>Evaluating the concrete inputs\<close>

lemma decode_floats_append:
  "length xs mod 4 = 0 \<Longrightarrow> decode_floats (xs @ ys) = decode_floats xs @ decode_floats ys"
  by (induction xs rule: decode_floats.induct) simp_all

lemma decode_floats_concat_replicate:
  "length p mod 4 = 0 \<Longrightarrow> decode_floats (concat (replicate n p)) = concat (replicate n (decode_floats p))"
  by (induction n) (simp_all add: decode_floats_append)

lemma decode_floats_zeros: "decode_floats (replicate (4 * n) 0) = replicate n (f32_of_bits 0)"
proof (induction n)
  case 0
  then show ?case by simp
next
  case (Suc n)
  have "replicate (4 * Suc n) (0 :: byte) = 0 # 0 # 0 # 0 # replicate (4 * n) 0"
    by (simp add: eval_nat_numeral)
  then show ?case using Suc by (simp add: le32_def)
qed

lemma foldl_concat_replicate_fixed:
  "foldl f a p = a \<Longrightarrow> foldl f a (concat (replicate n p)) = a"
  by (induction n) simp_all

lemma foldl_replicate_fixed:
  "f a z = a \<Longrightarrow> foldl f a (replicate n z) = a"
  by (induction n) simp_all

lemma nth_concat_replicate:
  "i < n * length p \<Longrightarrow> concat (replicate n p) ! i = p ! (i mod length p)"
proof (induction n arbitrary: i)
  case 0
  then show ?case by simp
next
  case (Suc n)
  show ?case
  proof (cases "i < length p")
    case True
    then show ?thesis by (simp add: nth_append)
  next
    case False
    then have "i - length p < n * length p" using Suc.prems by simp
    from Suc.IH[OF this] False show ?thesis
      by (simp add: nth_append le_mod_geq)
  qed
qed

lemma set_concat_replicate: "0 < n \<Longrightarrow> set (concat (replicate n p)) = set p"
  by (cases n) auto

lemma bits_values:
  "f32_of_bits (le32 0 0 0x80 0xBF) = Fin True 1"
  "f32_of_bits (le32 0 0 0 0) = Fin False 0"
  "f32_of_bits (le32 0 0 0x80 0x3F) = Fin False 1"
  "f32_of_bits (le32 0 0 0x80 0xFF) = Inf True"
  "f32_of_bits (le32 0 0 0x80 0x7F) = Inf False"
  "f32_of_bits 0 = Fin False 0"
  by (simp_all add: le32_def f32_of_bits_def)

lemma samples_scenario:
  "samples scenario_input = concat (replicate 16384 [Fin True 1, Fin False 0, Fin False 1])"
proof -
  have "take (3 * 128 * 128 * 4) scenario_input = scenario_input"
    by (simp add: length_scenario_input)
  then show ?thesis
    unfolding samples_def scenario_input_def
    by (simp add: decode_floats_concat_replicate bits_values)
qed

lemma rescale_scenario:
  "rescale (Fin True 1) (Fin False 1) (Fin True 1) = Fin False 0"
  "rescale (Fin True 1) (Fin False 1) (Fin False 0) = Fin False (255 / 2)"
  "rescale (Fin True 1) (Fin False 1) (Fin False 1) = Fin False 255"
  by (simp_all add: rescale_def round32_def umag_values)

lemma extrema_concat_replicate:
  assumes "foldl f x q = m" "foldl f m (x # q) = m"
  shows "foldl f (hd (concat (replicate (Suc n) (x # q)))) (tl (concat (replicate (Suc n) (x # q)))) = m"
proof -
  have "foldl f m (concat (replicate n (x # q))) = m"
    using assms(2) by (rule foldl_concat_replicate_fixed)
  then show ?thesis using assms(1) by simp
qed

lemma scenario_array:
  "\<exists>a. reshape_3_128_128 (samples scenario_input) = Inr a
     \<and> amin a = Inr (Fin True 1) \<and> amax a = Inr (Fin False 1)"
proof -
  let ?xs = "samples scenario_input"
  have len: "length ?xs = 49152" by (simp add: length_samples length_scenario_input)
  then obtain a where a: "reshape_3_128_128 ?xs = Inr a" by (simp add: reshape_samples)
  note r = amin_amax_reshaped[OF a]
  have xs: "?xs = concat (replicate (Suc 16383) [Fin True 1, Fin False 0, Fin False 1])"
    by (simp add: samples_scenario)
  have "foldl fminimum (hd ?xs) (tl ?xs) = Fin True 1"
    unfolding xs by (rule extrema_concat_replicate) (simp_all add: fminimum_def)
  moreover have "foldl fmaximum (hd ?xs) (tl ?xs) = Fin False 1"
    unfolding xs by (rule extrema_concat_replicate) (simp_all add: fmaximum_def)
  ultimately show ?thesis using a r(1,2) by simp
qed

subsection \<open>The image of a valid input, by sample\<close>

lemma sample_position:
  fixes i :: nat
  assumes "i < 49152"
  shows "i div 16384 < 3" "i mod 16384 div 128 < 128" "i mod 128 < 128"
    "(i div 16384) * 16384 + (i mod 16384 div 128) * 128 + i mod 128 = i"
proof -
  show "i div 16384 < 3" using assms by (simp add: less_mult_imp_div_less)
  show "i mod 16384 div 128 < 128" by (simp add: less_mult_imp_div_less)
  show "i mod 128 < 128" by simp
  have "i mod 16384 mod 128 = i mod 128" by (simp add: mod_mod_cancel)
  moreover have "(i mod 16384 div 128) * 128 + i mod 16384 mod 128 = i mod 16384"
    by (rule div_mult_mod_eq)
  moreover have "(i div 16384) * 16384 + i mod 16384 = i"
    by (rule div_mult_mod_eq)
  ultimately show "(i div 16384) * 16384 + (i mod 16384 div 128) * 128 + i mod 128 = i"
    by linarith
qed

lemma convert_sample:
  assumes "196608 \<le> length bin" "i < 49152"
    and "reshape_3_128_128 (samples bin) = Inr a" "amin a = Inr mn" "amax a = Inr mx"
  shows "\<exists>im. convert ic bin = Inr im
           \<and> pixel_of_sample im i = astype_uint8 ic (rescale mn mx (samples bin ! i))"
proof -
  note p = sample_position[OF assms(2)]
  from convert_pixel[OF assms(1) p(1,2,3) assms(3,4,5), of ic] show ?thesis
    unfolding pixel_of_sample_def p(4) by blast
qed

lemma extrema_of_samples:
  assumes "reshape_3_128_128 xs = Inr a" "amin a = Inr mn" "amax a = Inr mx"
  shows "(\<exists>y\<in>set xs. isnan y) \<and> mn = NaN \<and> mx = NaN
       \<or> (\<forall>y\<in>set xs. \<not> isnan y) \<and> mn \<in> set xs \<and> mx \<in> set xs \<and> (\<forall>y\<in>set xs. fle mn y \<and> fle y mx)"
  using global_extrema[OF assms] by (auto simp: isnan_iff)

text \<open>
  Claim C10.  For every input of at least 196608 bytes and any two of its 49152 samples:
  when the float at \<open>i\<close> is less than or equal to the float at \<open>j\<close>, the byte written
  for \<open>i\<close> is less than or equal to the byte written for \<open>j\<close>.  This holds whether or not
  the samples are all equal, and whatever byte the host leaves for a NaN.
\<close>

theorem quantization_monotone:
  assumes "196608 \<le> length bin" "i < 49152" "j < 49152"
    and "fle (samples bin ! i) (samples bin ! j)"
  shows "\<exists>im. convert ic bin = Inr im \<and> pixel_of_sample im i \<le> pixel_of_sample im j"
proof -
  let ?xs = "samples bin"
  have len: "length ?xs = 49152" using assms(1) by (rule length_samples)
  note cv = convert_valid[OF assms(1)]
  obtain a mn mx where a: "reshape_3_128_128 ?xs = Inr a" "amin a = Inr mn" "amax a = Inr mx"
    using cv(1,2,3) by blast
  obtain im where im: "convert ic bin = Inr im"
    "pixel_of_sample im i = astype_uint8 ic (rescale mn mx (?xs ! i))"
    using convert_sample[OF assms(1,2) a, of ic] by blast
  obtain im' where im': "convert ic bin = Inr im'"
    "pixel_of_sample im' j = astype_uint8 ic (rescale mn mx (?xs ! j))"
    using convert_sample[OF assms(1,3) a, of ic] by blast
  have same: "im' = im" using im(1) im'(1) by simp
  have mem: "?xs ! i \<in> set ?xs" "?xs ! j \<in> set ?xs" using assms(2,3) len by simp_all
  from extrema_of_samples[OF a]
  have "astype_uint8 ic (rescale mn mx (?xs ! i)) \<le> astype_uint8 ic (rescale mn mx (?xs ! j))"
  proof
    assume "(\<exists>y\<in>set ?xs. isnan y) \<and> mn = NaN \<and> mx = NaN"
    then show ?thesis by (simp add: rescale_nan_min)
  next
    assume "(\<forall>y\<in>set ?xs. \<not> isnan y) \<and> mn \<in> set ?xs \<and> mx \<in> set ?xs
              \<and> (\<forall>y\<in>set ?xs. fle mn y \<and> fle y mx)"
    then have "fle mn (?xs ! i)" "fle (?xs ! j) mx" using mem by blast+
    then show ?thesis using assms(4) by (intro mono_core)
  qed
  then show ?thesis using im im'(2) same by auto
qed

theorem quantization_monotone_witness:
  "196608 \<le> length scenario_input
   \<and> fle (samples scenario_input ! 0) (samples scenario_input ! 1)
   \<and> (\<exists>im. convert x86_invalid_cast scenario_input = Inr im
          \<and> pixel_of_sample im 0 \<le> pixel_of_sample im 1)"
proof -
  have l: "196608 \<le> length scenario_input" by (simp add: length_scenario_input)
  have s: "samples scenario_input ! 0 = Fin True 1" "samples scenario_input ! 1 = Fin False 0"
    by (simp_all add: samples_scenario nth_concat_replicate)
  have f: "fle (samples scenario_input ! 0) (samples scenario_input ! 1)"
    unfolding s by simp
  show ?thesis
    using quantization_monotone[OF l _ _ f, of x86_invalid_cast] l f by simp
qed

subsection \<open>The normalized array and the image\<close>

lemma normalized_array:
  assumes "196608 \<le> length bin"
    and "reshape_3_128_128 (samples bin) = Inr a" "amin a = Inr mn" "amax a = Inr mx"
  shows "normalize a = Inr (map3 (rescale mn mx) a)"
    and "convert ic bin = Inr (fromarray_RGB (transpose_1_2_0 (map3 (astype_uint8 ic) (map3 (rescale mn mx) a))))"
    and "k < 3 \<Longrightarrow> r < 128 \<Longrightarrow> c < 128 \<Longrightarrow> a ! k ! r ! c = samples bin ! (k * 16384 + r * 128 + c)"
    and "k < 3 \<Longrightarrow> r < 128 \<Longrightarrow> c < 128 \<Longrightarrow> map3 f a ! k ! r ! c = f (a ! k ! r ! c)"
proof -
  let ?xs = "samples bin"
  have len: "length ?xs = 49152" using assms(1) by (rule length_samples)
  note cv = convert_valid[OF assms(1)]
  have a: "a = map (split_axis 128 128) (split_axis 3 (128 * 128) ?xs)"
    using cv(1) assms(2) by simp
  have mn: "mn = foldl fminimum (hd ?xs) (tl ?xs)" using cv(2) assms(3) a by simp
  have mx: "mx = foldl fmaximum (hd ?xs) (tl ?xs)" using cv(3) assms(4) a by simp
  show "normalize a = Inr (map3 (rescale mn mx) a)"
    unfolding a mn mx by (rule normalize_reshaped[OF len])
  show "convert ic bin = Inr (fromarray_RGB (transpose_1_2_0 (map3 (astype_uint8 ic) (map3 (rescale mn mx) a))))"
    unfolding map3_map3 a mn mx by (rule cv(4))
  show "a ! k ! r ! c = ?xs ! (k * 16384 + r * 128 + c)" if "k < 3" "r < 128" "c < 128"
    unfolding a using nth_reshape[of ?xs k r c] len that by simp
  show "map3 f a ! k ! r ! c = f (a ! k ! r ! c)" if "k < 3" "r < 128" "c < 128"
    unfolding a using shape_reshaped[OF len] that by (intro nth_map3) simp_all
qed

text \<open>
  Claim C7.  For every input of at least 196608 bytes the image is built from the
  quantized planar array by moving the plane axis last: its band \<open>k\<close> at row \<open>r\<close> and
  column \<open>c\<close> is element \<open>[k][r][c]\<close> of the quantized array, which is the quantized value
  of input sample \<open>k * 16384 + r * 128 + c\<close>; the image is 128 by 128 in mode RGB, so
  plane 0 is R, plane 1 is G and plane 2 is B.
\<close>

theorem planar_to_interleaved:
  assumes "196608 \<le> length bin" "k < 3" "r < 128" "c < 128"
    and "reshape_3_128_128 (samples bin) = Inr a" "amin a = Inr mn" "amax a = Inr mx"
  shows "\<exists>n im. normalize a = Inr n
           \<and> convert ic bin = Inr im
           \<and> im = fromarray_RGB (transpose_1_2_0 (map3 (astype_uint8 ic) n))
           \<and> im_mode im = ''RGB'' \<and> im_width im = 128 \<and> im_height im = 128
           \<and> length (im_data im) = 49152
           \<and> getpixel im r c k = map3 (astype_uint8 ic) n ! k ! r ! c
           \<and> getpixel im r c k = astype_uint8 ic (rescale mn mx (samples bin ! (k * 16384 + r * 128 + c)))"
proof -
  note n = normalized_array[OF assms(1,5,6,7)]
  let ?n = "map3 (rescale mn mx) a"
  let ?q = "map3 (astype_uint8 ic) ?n"
  let ?im = "fromarray_RGB (transpose_1_2_0 ?q)"
  have g: "getpixel ?im r c k = ?q ! k ! r ! c"
    by (rule getpixel_fromarray[OF assms(3,4,2)])
  have "?q ! k ! r ! c = map3 (astype_uint8 ic \<circ> rescale mn mx) a ! k ! r ! c"
    by (simp only: map3_map3)
  also have "\<dots> = (astype_uint8 ic \<circ> rescale mn mx) (a ! k ! r ! c)"
    by (rule n(4)[OF assms(2,3,4)])
  also have "\<dots> = astype_uint8 ic (rescale mn mx (samples bin ! (k * 16384 + r * 128 + c)))"
    by (simp only: comp_apply n(3)[OF assms(2,3,4)])
  finally have q: "?q ! k ! r ! c = astype_uint8 ic (rescale mn mx (samples bin ! (k * 16384 + r * 128 + c)))" .
  have "normalize a = Inr ?n \<and> convert ic bin = Inr ?im
        \<and> ?im = fromarray_RGB (transpose_1_2_0 (map3 (astype_uint8 ic) ?n))
        \<and> im_mode ?im = ''RGB'' \<and> im_width ?im = 128 \<and> im_height ?im = 128
        \<and> length (im_data ?im) = 49152
        \<and> getpixel ?im r c k = ?q ! k ! r ! c
        \<and> getpixel ?im r c k = astype_uint8 ic (rescale mn mx (samples bin ! (k * 16384 + r * 128 + c)))"
    using n(1) n(2)[of ic] fromarray_shape[of ?q] g q by simp
  then show ?thesis by blast
qed

subsection \<open>The input with three different planes\<close>

lemma foldl_replicate_step:
  "f a z = b \<Longrightarrow> f b z = b \<Longrightarrow> 0 < n \<Longrightarrow> foldl f a (replicate n z) = b"
  by (cases n) (simp_all add: foldl_replicate_fixed)

lemma concat_replicate_single: "concat (replicate n [x]) = replicate n x"
  by (induction n) simp_all

lemma length_planes_input: "length planes_input = 196608"
  by (simp add: planes_input_def length_concat_replicate)

lemma samples_planes:
  "samples planes_input
     = replicate 16384 (Fin False 0) @ replicate 16384 (Fin False 1) @ replicate 16384 (Fin False 2)"
proof -
  have t: "take (3 * 128 * 128 * 4) planes_input = planes_input"
    by (simp add: length_planes_input)
  have two: "f32_of_bits (le32 0 0 0 0x40) = Fin False 2"
    by (simp add: le32_def f32_of_bits_def)
  have z: "decode_floats (replicate 65536 0) = replicate 16384 (Fin False 0)"
    using decode_floats_zeros[of 16384] by (simp add: bits_values)
  show ?thesis
    unfolding samples_def t unfolding planes_input_def
    by (simp add: decode_floats_append decode_floats_concat_replicate length_concat_replicate
        bits_values two z concat_replicate_single)
qed

lemma planes_array:
  "\<exists>a. reshape_3_128_128 (samples planes_input) = Inr a
     \<and> amin a = Inr (Fin False 0) \<and> amax a = Inr (Fin False 2)"
proof -
  let ?xs = "samples planes_input"
  have len: "length ?xs = 49152" by (simp add: length_samples length_planes_input)
  then obtain a where a: "reshape_3_128_128 ?xs = Inr a" by (simp add: reshape_samples)
  note r = amin_amax_reshaped[OF a]
  have xs: "?xs = Fin False 0 # (replicate 16383 (Fin False 0) @ replicate 16384 (Fin False 1)
                @ replicate 16384 (Fin False 2))"
  proof -
    have "replicate 16384 (Fin False 0) = Fin False 0 # replicate 16383 (Fin False 0)"
      using replicate_Suc[of 16383 "Fin False 0"] by simp
    then show ?thesis by (simp add: samples_planes)
  qed
  have "foldl fminimum (hd ?xs) (tl ?xs) = Fin False 0"
    unfolding xs by (simp add: foldl_replicate_fixed fminimum_def)
  moreover have "foldl fmaximum (hd ?xs) (tl ?xs) = Fin False 2"
    unfolding xs
    by (simp add: foldl_replicate_fixed foldl_replicate_step[of fmaximum _ _ "Fin False 1"]
        foldl_replicate_step[of fmaximum _ _ "Fin False 2"] fmaximum_def)
  ultimately show ?thesis using a r(1,2) by simp
qed

lemma rescale_planes:
  "rescale (Fin False 0) (Fin False 2) (Fin False 0) = Fin False 0"
  "rescale (Fin False 0) (Fin False 2) (Fin False 1) = Fin False (255 / 2)"
  "rescale (Fin False 0) (Fin False 2) (Fin False 2) = Fin False 255"
  by (simp_all add: rescale_def round32_def umag_values)

lemma astype_values:
  "astype_uint8 ic (Fin False 0) = 0"
  "astype_uint8 ic (Fin False (255 / 2)) = 127"
  "astype_uint8 ic (Fin False 255) = 255"
proof -
  have "\<lfloor>255 / 2 :: rat\<rfloor> = 127" by (simp add: floor_eq_iff)
  then show "astype_uint8 ic (Fin False (255 / 2)) = 127" by (simp add: astype_uint8_def)
qed (simp_all add: astype_uint8_def)

theorem planar_to_interleaved_witness:
  "\<exists>im. convert x86_invalid_cast planes_input = Inr im
     \<and> im_mode im = ''RGB'' \<and> im_width im = 128 \<and> im_height im = 128
     \<and> getpixel im 5 7 0 = 0 \<and> getpixel im 5 7 1 = 127 \<and> getpixel im 5 7 2 = 255"
proof -
  have l: "196608 \<le> length planes_input" by (simp add: length_planes_input)
  obtain a where a: "reshape_3_128_128 (samples planes_input) = Inr a"
    "amin a = Inr (Fin False 0)" "amax a = Inr (Fin False 2)"
    using planes_array by blast
  have s: "samples planes_input ! (0 * 16384 + 5 * 128 + 7) = Fin False 0"
    "samples planes_input ! (1 * 16384 + 5 * 128 + 7) = Fin False 1"
    "samples planes_input ! (2 * 16384 + 5 * 128 + 7) = Fin False 2"
    by (simp_all add: samples_planes nth_append)
  from planar_to_interleaved[OF l _ _ _ a, of 0 5 7 x86_invalid_cast]
    planar_to_interleaved[OF l _ _ _ a, of 1 5 7 x86_invalid_cast]
    planar_to_interleaved[OF l _ _ _ a, of 2 5 7 x86_invalid_cast]
  show ?thesis unfolding s rescale_planes astype_values by auto
qed

lemma concat_reshaped:
  assumes "reshape_3_128_128 xs = Inr a"
  shows "concat (concat a) = xs"
proof -
  have len: "length xs = 3 * (128 * 128)" and a: "a = map (split_axis 128 128) (split_axis 3 (128 * 128) xs)"
    using assms by (auto simp: reshape_3_128_128_def split: if_splits)
  show ?thesis unfolding a by (rule concat_map_split_axis[OF len])
qed

text \<open>
  Claim C3.  For every input of at least 196608 bytes, \<open>min()\<close> and \<open>max()\<close> are taken once
  over the whole array, whose three planes together are the 49152 samples, and every
  element of every plane is rescaled with that one pair: when no sample is NaN the pair is
  the least and the greatest of all 49152 samples, and when some sample is NaN both are NaN.
\<close>

theorem global_normalization:
  assumes "196608 \<le> length bin" "reshape_3_128_128 (samples bin) = Inr a"
  shows "\<exists>mn mx n. amin a = Inr mn \<and> amax a = Inr mx \<and> normalize a = Inr n
           \<and> convert ic bin = Inr (fromarray_RGB (transpose_1_2_0 (map3 (astype_uint8 ic) n)))
           \<and> concat (concat a) = samples bin
           \<and> (\<forall>k<3. \<forall>r<128. \<forall>c<128. n ! k ! r ! c = rescale mn mx (a ! k ! r ! c))
           \<and> ((\<exists>y\<in>set (samples bin). isnan y) \<longrightarrow> isnan mn \<and> isnan mx)
           \<and> ((\<forall>y\<in>set (samples bin). \<not> isnan y) \<longrightarrow>
                 mn \<in> set (samples bin) \<and> mx \<in> set (samples bin)
                 \<and> (\<forall>y\<in>set (samples bin). fle mn y \<and> fle y mx))"
proof -
  note r = amin_amax_reshaped[OF assms(2)]
  obtain mn mx where m: "amin a = Inr mn" "amax a = Inr mx" using r(1,2) by blast
  note n = normalized_array[OF assms(1,2) m]
  note g = global_extrema[OF assms(2) m]
  have "\<forall>k<3. \<forall>r<128. \<forall>c<128. map3 (rescale mn mx) a ! k ! r ! c = rescale mn mx (a ! k ! r ! c)"
    using n(4) by blast
  then show ?thesis
    using m n(1) n(2)[of ic] g concat_reshaped[OF assms(2)] by blast
qed

theorem global_normalization_witness:
  "\<exists>a n. reshape_3_128_128 (samples planes_input) = Inr a
     \<and> amin a = Inr (Fin False 0) \<and> amax a = Inr (Fin False 2) \<and> normalize a = Inr n
     \<and> a ! 0 ! 0 ! 0 = Fin False 0 \<and> a ! 1 ! 0 ! 0 = Fin False 1 \<and> a ! 2 ! 0 ! 0 = Fin False 2
     \<and> n ! 0 ! 0 ! 0 = Fin False 0 \<and> n ! 1 ! 0 ! 0 = Fin False (255 / 2) \<and> n ! 2 ! 0 ! 0 = Fin False 255"
proof -
  have l: "196608 \<le> length planes_input" by (simp add: length_planes_input)
  obtain a where a: "reshape_3_128_128 (samples planes_input) = Inr a"
    "amin a = Inr (Fin False 0)" "amax a = Inr (Fin False 2)"
    using planes_array by blast
  have s: "samples planes_input ! (0 * 16384 + 0 * 128 + 0) = Fin False 0"
    "samples planes_input ! (1 * 16384 + 0 * 128 + 0) = Fin False 1"
    "samples planes_input ! (2 * 16384 + 0 * 128 + 0) = Fin False 2"
    by (simp_all add: samples_planes nth_append)
  have e: "a ! 0 ! 0 ! 0 = Fin False 0" "a ! 1 ! 0 ! 0 = Fin False 1" "a ! 2 ! 0 ! 0 = Fin False 2"
    using normalized_array(3)[OF l a, of 0 0 0] normalized_array(3)[OF l a, of 1 0 0]
      normalized_array(3)[OF l a, of 2 0 0] s by simp_all
  obtain mn mx n where n: "amin a = Inr mn" "amax a = Inr mx" "normalize a = Inr n"
    "\<forall>k<3. \<forall>r<128. \<forall>c<128. n ! k ! r ! c = rescale mn mx (a ! k ! r ! c)"
    using global_normalization[OF l a(1), of x86_invalid_cast] by blast
  have m: "mn = Fin False 0" "mx = Fin False 2" using n(1,2) a(2,3) by simp_all
  have p: "n ! 0 ! 0 ! 0 = rescale mn mx (a ! 0 ! 0 ! 0)" "n ! 1 ! 0 ! 0 = rescale mn mx (a ! 1 ! 0 ! 0)"
    "n ! 2 ! 0 ! 0 = rescale mn mx (a ! 2 ! 0 ! 0)"
    by (rule n(4)[rule_format]; simp)+
  have "n ! 0 ! 0 ! 0 = Fin False 0" "n ! 1 ! 0 ! 0 = Fin False (255 / 2)" "n ! 2 ! 0 ! 0 = Fin False 255"
    unfolding p m e rescale_planes by (rule refl)+
  then show ?thesis using a n(3) e by blast
qed

subsection \<open>A constant input\<close>





subsection \<open>Decoded samples are multiples of the smallest subnormal\<close>

lemma f32_of_bits_grid: "\<exists>k::int. valof (f32_of_bits w) = of_int k / 2 ^ 149"
proof -
  have g: "\<exists>k::int. valof (Fin s (of_nat n / 2 ^ 149)) = of_int k / 2 ^ 149" for s n
  proof (cases s)
    case True
    then show ?thesis by (intro exI[of _ "- int n"]) simp
  next
    case False
    then show ?thesis by (intro exI[of _ "int n"]) simp
  qed
  have z: "\<exists>k::int. (0::rat) = of_int k / 2 ^ 149" by (intro exI[of _ 0]) simp
  show ?thesis unfolding f32_of_bits_def Let_def using g z by (simp only: valof.simps split: if_splits) auto
qed

lemma decode_floats_grid:
  "x \<in> set (decode_floats bs) \<Longrightarrow> \<exists>k::int. valof x = of_int k / 2 ^ 149"
proof (induction bs rule: decode_floats.induct)
  case (1 b0 b1 b2 b3 bs)
  from "1.prems" have "x = f32_of_bits (le32 b0 b1 b2 b3) \<or> x \<in> set (decode_floats bs)" by simp
  then show ?case using "1.IH" f32_of_bits_grid by blast
qed simp_all

lemma samples_grid: "x \<in> set (samples bin) \<Longrightarrow> \<exists>k::int. valof x = of_int k / 2 ^ 149"
  unfolding samples_def by (rule decode_floats_grid)

lemma grid_difference_rounds_positive:
  assumes "valof x = of_int k / 2 ^ 149" "valof y = of_int l / 2 ^ 149" "valof y < valof x"
  shows "0 < umag (valof x - valof y)"
proof -
  have "(of_int l :: rat) < of_int k" using assms by (simp add: divide_less_cancel)
  then have "1 \<le> k - l" by simp
  then have "(1::rat) \<le> of_int (k - l)" by (simp only: of_int_1_le_iff)
  then have "1 / 2 ^ 149 \<le> (of_int (k - l) :: rat) / 2 ^ 149" by (intro divide_right_mono) simp_all
  also have "\<dots> = valof x - valof y" using assms(1,2) by (simp add: diff_divide_distrib)
  finally have "umag (1 / 2 ^ 149) \<le> umag (valof x - valof y)" by (rule umag_mono)
  then have "1 / 2 ^ 149 \<le> umag (valof x - valof y)" by (simp only: umag_values(7))
  moreover have "(0::rat) < 1 / 2 ^ 149" by simp
  ultimately show ?thesis by (rule less_le_trans[rotated])
qed

subsection \<open>The range of the normalized values\<close>

lemma fin_den_range:
  assumes "fsub (Fin sx x) (Fin sm m) = Fin t dm"
    and "fle (Fin sm m) v" "fle v (Fin sx x)"
  shows "rescale (Fin sm m) (Fin sx x) v = NaN
       \<or> (\<exists>s n. rescale (Fin sm m) (Fin sx x) v = Fin s n \<and> 0 \<le> n \<and> n \<le> 255 \<and> (s \<longrightarrow> n = 0))"
proof -
  let ?mn = "Fin sm m" and ?mx = "Fin sx x"
  obtain sv av where v: "v = Fin sv av" using assms(2,3) by (cases v) auto
  let ?rv = "valof (Fin sv av) - valof ?mn"
  let ?rd = "valof ?mx - valof ?mn"
  have r: "0 \<le> ?rv" "?rv \<le> ?rd" using assms(2,3) v by simp_all
  then have rd0: "0 \<le> ?rd" by linarith
  have d: "dm = umag ?rd" "umag ?rd < 2 ^ 128" "t \<longrightarrow> dm = 0"
    using fsub_fin_nonneg[OF refl rd0] assms(1) by auto
  have bv: "umag ?rv \<le> dm" using r umag_mono d(1) by simp
  then have "umag ?rv < 2 ^ 128" using d(1,2) by linarith
  then obtain s where nv: "fsub v ?mn = Fin s (umag ?rv)" "s \<longrightarrow> umag ?rv = 0"
    using fsub_fin_nonneg[OF refl r(1)] v by fastforce
  have p: "0 \<le> umag ?rv" using r(1) by (simp add: umag_nonneg)
  show ?thesis
  proof (cases "dm = 0")
    case True
    then have "umag ?rv = 0" using bv p by linarith
    then have "rescale ?mn ?mx v = NaN"
      using nv(1) assms(1) True rescale_zero_den by simp
    then show ?thesis by simp
  next
    case False
    then have dpos: "0 < dm" using bv p by linarith
    then have dd: "fsub ?mx ?mn = Fin False dm" using assms(1) d(3) by auto
    from rescale_range[OF nv(1) p nv(2) dd dpos bv] show ?thesis by blast
  qed
qed

lemma inf_den_range:
  assumes "fsub mx (Fin sm m) = Inf False" "fle (Fin sm m) v"
  shows "rescale (Fin sm m) mx v = NaN \<or> (\<exists>s. rescale (Fin sm m) mx v = Fin s 0)"
proof -
  consider (fin) s a where "fsub v (Fin sm m) = Fin s a" | (inf) "fsub v (Fin sm m) = Inf False"
    using fle_fin_cases[OF assms(2)] fsub_fin_nonneg[of _ _ _ sm m] by fastforce
  then show ?thesis
  proof cases
    case fin
    then have "rescale (Fin sm m) mx v = Fin s 0" by (rule rescale_inf_den(1)[OF assms(1)])
    then show ?thesis by simp
  next
    case inf
    then have "rescale (Fin sm m) mx v = NaN" by (rule rescale_inf_den(2)[OF assms(1)])
    then show ?thesis by simp
  qed
qed

lemma range_core:
  assumes "fle mn v" "fle v mx"
  shows "rescale mn mx v = NaN
       \<or> (\<exists>s n. rescale mn mx v = Fin s n \<and> 0 \<le> n \<and> n \<le> 255 \<and> (s \<longrightarrow> n = 0))"
proof (cases mn)
  case NaN
  then show ?thesis using assms(1) by simp
next
  case (Inf sm)
  then show ?thesis by (simp add: rescale_inf_min)
next
  case mn: (Fin sm m)
  have le: "fle mn mx" using assms by (rule fle_trans)
  have v: "fle (Fin sm m) v" using assms(1) unfolding mn .
  have zero: ?thesis if "fsub mx (Fin sm m) = Inf False"
  proof -
    from inf_den_range[OF that v]
    have "rescale mn mx v = NaN \<or> (\<exists>s. rescale mn mx v = Fin s 0)" unfolding mn .
    then show ?thesis
    proof
      assume "rescale mn mx v = NaN"
      then show ?thesis by (rule disjI1)
    next
      assume "\<exists>s. rescale mn mx v = Fin s 0"
      then obtain s where "rescale mn mx v = Fin s 0" ..
      then have "rescale mn mx v = Fin s 0 \<and> (0::rat) \<le> 0 \<and> (0::rat) \<le> 255 \<and> (s \<longrightarrow> (0::rat) = 0)"
        by simp
      then show ?thesis by (intro disjI2 exI[of _ s] exI[of _ 0])
    qed
  qed
  show ?thesis
  proof (cases mx)
    case NaN
    then show ?thesis using assms(2) by (cases v) simp_all
  next
    case (Inf sx)
    then have "sx = False" using le mn by simp
    then have "fsub mx (Fin sm m) = Inf False" using Inf by simp
    then show ?thesis by (rule zero)
  next
    case mx: (Fin sx x)
    have "0 \<le> valof (Fin sx x) - valof (Fin sm m)" using le mn mx by simp
    from fsub_fin_nonneg[OF refl this]
    consider "fsub mx (Fin sm m) = Inf False" | t dm where "fsub (Fin sx x) (Fin sm m) = Fin t dm"
      using mx by auto
    then show ?thesis
    proof cases
      case 1
      then show ?thesis by (rule zero)
    next
      case 2
      have "fle v (Fin sx x)" using assms(2) unfolding mx .
      from fin_den_range[OF 2 v this] show ?thesis unfolding mn mx .
    qed
  qed
qed

text \<open>
  Finite samples that are not all equal and whose range does not overflow: the divisor is
  a positive number, the numerator lies between zero and the divisor, is zero at the
  minimum and is the divisor at the maximum.
\<close>

lemma finite_range:
  assumes "mn \<in> set xs" "mx \<in> set xs" "\<forall>y\<in>set xs. fle mn y \<and> fle y mx"
    and "\<forall>y\<in>set xs. isfinite y" "\<forall>y\<in>set xs. \<exists>k::int. valof y = of_int k / 2 ^ 149"
    and "\<exists>y\<in>set xs. \<exists>z\<in>set xs. \<not> feq y z"
    and "isfinite (fsub mx mn)" "v \<in> set xs"
  shows "\<exists>dm s a. fsub mx mn = Fin False dm \<and> 0 < dm \<and> fsub v mn = Fin s a \<and> 0 \<le> a \<and> a \<le> dm
           \<and> (s \<longrightarrow> a = 0) \<and> (feq v mn \<longrightarrow> a = 0) \<and> (feq v mx \<longrightarrow> a = dm)"
proof -
  have "isfinite mn" "isfinite mx" "isfinite v" using assms(1,2,8,4) by blast+
  then obtain sm m sx x sv av where mn: "mn = Fin sm m" and mx: "mx = Fin sx x" and v: "v = Fin sv av"
    by (cases mn; cases mx; cases v) simp_all
  let ?rv = "valof v - valof mn"
  let ?rd = "valof mx - valof mn"
  have b: "valof mn \<le> valof y \<and> valof y \<le> valof mx" if "y \<in> set xs" for y
  proof -
    have "isfinite y" using that assms(4) by blast
    then obtain sy ay where y: "y = Fin sy ay" by (cases y) simp_all
    have "fle mn y" "fle y mx" using assms(3) that by blast+
    then show ?thesis unfolding y mn mx by simp
  qed
  have ne: "valof mn \<noteq> valof mx"
  proof
    assume e: "valof mn = valof mx"
    have "feq y z" if "y \<in> set xs" "z \<in> set xs" for y z
    proof -
      have "isfinite y" "isfinite z" using that assms(4) by blast+
      then obtain sy ay sz az where yz: "y = Fin sy ay" "z = Fin sz az"
        by (cases y; cases z) simp_all
      have "valof y = valof z" using b[OF that(1)] b[OF that(2)] e by linarith
      then show ?thesis unfolding yz by (simp add: feq_def)
    qed
    then show False using assms(6) by blast
  qed
  then have lt: "valof mn < valof mx" using b[OF assms(1)] by linarith
  have r: "0 \<le> ?rv" "?rv \<le> ?rd" "0 < ?rd" using b[OF assms(8)] lt by linarith+
  obtain k l where "valof mx = of_int k / 2 ^ 149" "valof mn = of_int l / 2 ^ 149"
    using assms(1,2,5) by blast
  from grid_difference_rounds_positive[OF this lt] have dpos: "0 < umag ?rd" .
  have "fsub mx mn = round32 False ?rd" using r(3) mn mx by (simp add: Let_def)
  then have d: "fsub mx mn = Fin False (umag ?rd)" "umag ?rd < 2 ^ 128"
    using assms(7) round32_cases[of False ?rd] by auto
  have bv: "umag ?rv \<le> umag ?rd" using r(2) by (rule umag_mono)
  then have "umag ?rv < 2 ^ 128" using d(2) by linarith
  moreover have "?rv = valof (Fin sv av) - valof (Fin sm m)" by (simp only: v mn)
  ultimately obtain s where nv: "fsub v mn = Fin s (umag ?rv)" "s \<longrightarrow> umag ?rv = 0"
    using fsub_fin_nonneg[OF _ r(1), of sv av sm m] unfolding v mn by fastforce
  have p: "0 \<le> umag ?rv" using r(1) by (rule umag_nonneg)
  have "feq v mn \<longrightarrow> ?rv = 0" unfolding v mn by (simp add: feq_def)
  then have e0: "feq v mn \<longrightarrow> umag ?rv = 0" by (auto simp: umag_values)
  have "feq v mx \<longrightarrow> ?rv = ?rd" unfolding v mx by (simp add: feq_def)
  then have e1: "feq v mx \<longrightarrow> umag ?rv = umag ?rd" by auto
  show ?thesis
    by (intro exI[of _ "umag ?rd"] exI[of _ s] exI[of _ "umag ?rv"]) (use d(1) dpos nv p bv e0 e1 in simp)
qed

end
